theory Spec2Isabelle
  imports Main
begin

unbundle bit_operations_syntax

section \<open>Results of Python calls\<close>

text \<open>
  The two modules \<^verbatim>\<open>rsa.py\<close> and \<^verbatim>\<open>elgamal.py\<close> work on Python's unbounded integers,
  modelled as \<^typ>\<open>int\<close>: Python's \<^verbatim>\<open>//\<close> and \<^verbatim>\<open>%\<close> round towards minus infinity, as
  \<^const>\<open>divide\<close> and \<^const>\<open>modulo\<close> on \<^typ>\<open>int\<close> do, \<^verbatim>\<open>e & 1\<close> is \<open>e AND 1\<close> and
  \<^verbatim>\<open>e >>= 1\<close> is \<open>drop_bit 1 e\<close> (two's complement with infinitely many sign bits).

  A call either raises, returns, or never returns. The exceptions that the modelled code can
  raise are the constructors of \<open>error\<close>; a call that returns \<open>v\<close> is \<open>Some (Inr v)\<close>,
  one that raises \<open>e\<close> is \<open>Some (Inl e)\<close>, and one whose loop runs forever is \<open>None\<close>.
\<close>

datatype error = ZeroDivisionError | ValueError | TypeError

type_synonym 'a result = "(error + 'a) option"

definition rbind :: "'a result \<Rightarrow> ('a \<Rightarrow> 'b result) \<Rightarrow> 'b result" where
  "rbind r f = (case r of None \<Rightarrow> None | Some (Inl e) \<Rightarrow> Some (Inl e) | Some (Inr v) \<Rightarrow> f v)"

lemma rbind_mono [partial_function_mono]:
  assumes mf: "mono_option B" and mg: "\<And>y. mono_option (\<lambda>f. C y f)"
  shows "mono_option (\<lambda>f. rbind (B f) (\<lambda>y. C y f))"
proof (rule monotoneI)
  fix f g :: "'a \<Rightarrow> 'b option"
  assume fg: "fun_ord option_ord f g"
  have B: "option_ord (B f) (B g)"
    using mf by (rule monotoneD) (rule fg)
  have C: "option_ord (C y f) (C y g)" for y
    using mg by (rule monotoneD) (rule fg)
  show "option_ord (rbind (B f) (\<lambda>y. C y f)) (rbind (B g) (\<lambda>y. C y g))"
  proof (cases "B f")
    case None
    then show ?thesis by (simp add: rbind_def flat_ord_def)
  next
    case (Some v)
    with B have "B g = Some v" by (simp add: flat_ord_def)
    with Some C show ?thesis by (cases v) (simp_all add: rbind_def flat_ord_def)
  qed
qed

section \<open>Modular exponentiation\<close>

text \<open>
  \<^verbatim>\<open>quick_pow(m, e, n)\<close>: \<^verbatim>\<open>ans = 1; while e: if e & 1: ans = (ans * m) % n; m = m * m % n; e >>= 1\<close>.
  With \<open>n = 0\<close> the first iteration divides by zero; with \<open>e < 0\<close> the shift never reaches 0.
\<close>

partial_function (option) quick_pow_loop :: "int \<Rightarrow> int \<Rightarrow> int \<Rightarrow> int \<Rightarrow> int result" where
  "quick_pow_loop ans m e n =
     (if e = 0 then Some (Inr ans)
      else if n = 0 then Some (Inl ZeroDivisionError)
      else quick_pow_loop (if e AND 1 \<noteq> 0 then (ans * m) mod n else ans)
             (m * m mod n) (drop_bit 1 e) n)"

definition quick_pow :: "int \<Rightarrow> int \<Rightarrow> int \<Rightarrow> int result" where
  "quick_pow m e n = quick_pow_loop 1 m e n"

section \<open>The random source\<close>

text \<open>
  \<^verbatim>\<open>random.randint(a, b)\<close> returns some integer of \<open>[a, b]\<close> and raises \<^verbatim>\<open>ValueError\<close> on an
  empty range. The generator's state is an infinite sequence of raw draws \<open>rnd\<close> and a
  cursor; a call reduces the raw draw under the cursor into the range, so that every
  sequence is a run and every integer of the range is the outcome of some run.
\<close>

type_synonym tape = "nat \<Rightarrow> nat"

definition randint :: "int \<Rightarrow> int \<Rightarrow> nat \<Rightarrow> error + int" where
  "randint a b raw = (if b < a then Inl ValueError else Inr (a + int raw mod (b - a + 1)))"

definition draw :: "int \<Rightarrow> int \<Rightarrow> tape \<Rightarrow> nat \<Rightarrow> (int \<times> nat) result" where
  "draw a b rnd i = (case randint a b (rnd i) of Inl e \<Rightarrow> Some (Inl e) | Inr v \<Rightarrow> Some (Inr (v, Suc i)))"

section \<open>The primality oracle\<close>

text \<open>
  \<^verbatim>\<open>_miller_rabin_test(d, n)\<close> draws \<^verbatim>\<open>a = 2 + random.randint(1, n - 4)\<close>, computes
  \<^verbatim>\<open>x = quick_pow(a, d, n)\<close>, accepts when \<open>x\<close> is \<open>1\<close> or \<open>n - 1\<close>, and otherwise squares \<open>x\<close>
  and doubles \<open>d\<close> while \<^verbatim>\<open>d != n - 1\<close>. The loop
  \<^verbatim>\<open>while d != n - 1: x = (x * x) % n; d *= 2; if x == 1: return False; if x == n - 1: return True\<close>
  need not end when \<open>d\<close> is not \<open>(n - 1) / 2 ^ j\<close>. \<^verbatim>\<open>is_prime(n, k)\<close> answers \<open>n \<le> 1\<close>,
  \<open>n \<le> 3\<close> and even \<open>n\<close> at once, strips the factors \<open>2\<close> from \<open>n - 1\<close>
  (\<^verbatim>\<open>while d % 2 == 0: d //= 2\<close>) and runs \<^verbatim>\<open>range(k)\<close> trials, stopping at the first that fails.
\<close>

partial_function (option) miller_rabin_loop :: "int \<Rightarrow> int \<Rightarrow> int \<Rightarrow> bool result" where
  "miller_rabin_loop x d n =
     (if d \<noteq> n - 1 then
        (if n = 0 then Some (Inl ZeroDivisionError)
         else if (x * x) mod n = 1 then Some (Inr False)
         else if (x * x) mod n = n - 1 then Some (Inr True)
         else miller_rabin_loop ((x * x) mod n) (d * 2) n)
      else Some (Inr False))"

definition miller_rabin_witness :: "int \<Rightarrow> nat \<Rightarrow> error + int" where
  "miller_rabin_witness n raw = (case randint 1 (n - 4) raw of Inl e \<Rightarrow> Inl e | Inr v \<Rightarrow> Inr (2 + v))"

definition miller_rabin_test :: "int \<Rightarrow> int \<Rightarrow> tape \<Rightarrow> nat \<Rightarrow> (bool \<times> nat) result" where
  "miller_rabin_test d n rnd i =
     (case miller_rabin_witness n (rnd i) of
        Inl e \<Rightarrow> Some (Inl e)
      | Inr a \<Rightarrow>
          rbind (quick_pow a d n) (\<lambda>x.
            if x = 1 \<or> x = n - 1 then Some (Inr (True, Suc i))
            else rbind (miller_rabin_loop x d n) (\<lambda>b. Some (Inr (b, Suc i)))))"

partial_function (option) odd_part :: "int \<Rightarrow> int option" where
  "odd_part d = (if d mod 2 = 0 then odd_part (d div 2) else Some d)"

fun is_prime_rounds :: "nat \<Rightarrow> int \<Rightarrow> int \<Rightarrow> tape \<Rightarrow> nat \<Rightarrow> (bool \<times> nat) result" where
  "is_prime_rounds 0 d n rnd i = Some (Inr (True, i))"
| "is_prime_rounds (Suc k) d n rnd i =
     rbind (miller_rabin_test d n rnd i) (\<lambda>(b, i').
       if \<not> b then Some (Inr (False, i')) else is_prime_rounds k d n rnd i')"

definition is_prime :: "int \<Rightarrow> int \<Rightarrow> tape \<Rightarrow> nat \<Rightarrow> (bool \<times> nat) result" where
  "is_prime n k rnd i =
     (if n \<le> 1 then Some (Inr (False, i))
      else if n \<le> 3 then Some (Inr (True, i))
      else if n mod 2 = 0 then Some (Inr (False, i))
      else (case odd_part (n - 1) of
              None \<Rightarrow> None
            | Some d \<Rightarrow> is_prime_rounds (nat k) d n rnd i))"

section \<open>Safe primes and generators (ElGamal)\<close>

text \<open>
  \<^verbatim>\<open>gen_large_prime\<close> of \<^verbatim>\<open>elgamal.py\<close> draws \<^verbatim>\<open>random.randint(2**63, 2**64 - 1)\<close> until the
  draw and its half \<^verbatim>\<open>(large_prime - 1) // 2\<close> both pass \<^verbatim>\<open>is_prime\<close> with the default five
  rounds. \<^verbatim>\<open>find_generator(p)\<close> scans \<^verbatim>\<open>range(2, p)\<close> and returns the first \<open>g\<close> with
  \<^verbatim>\<open>quick_pow(g, 2, p) != 1 and quick_pow(g, q, p) != 1\<close>, or \<^verbatim>\<open>None\<close>; the second test is
  evaluated only when the first holds.
\<close>

partial_function (option) gen_large_prime :: "tape \<Rightarrow> nat \<Rightarrow> (int \<times> nat) result" where
  "gen_large_prime rnd i =
     rbind (draw (2 ^ 63) (2 ^ 64 - 1) rnd i) (\<lambda>(large_prime, i1).
       rbind (is_prime large_prime 5 rnd i1) (\<lambda>(b1, i2).
         if b1 then
           rbind (is_prime ((large_prime - 1) div 2) 5 rnd i2) (\<lambda>(b2, i3).
             if b2 then Some (Inr (large_prime, i3)) else gen_large_prime rnd i3)
         else gen_large_prime rnd i2))"

function find_generator_loop :: "int \<Rightarrow> int \<Rightarrow> int \<Rightarrow> int option result" where
  "find_generator_loop g q p =
     (if g < p then
        rbind (quick_pow g 2 p) (\<lambda>a.
          if a \<noteq> 1 then
            rbind (quick_pow g q p) (\<lambda>b.
              if b \<noteq> 1 then Some (Inr (Some g)) else find_generator_loop (g + 1) q p)
          else find_generator_loop (g + 1) q p)
      else Some (Inr None))"
  by pat_completeness auto
termination
  by (relation "measure (\<lambda>(g, q, p). nat (p - g))") auto

definition find_generator :: "int \<Rightarrow> int option result" where
  "find_generator p = find_generator_loop 2 ((p - 1) div 2) p"


text \<open>
  \<^verbatim>\<open>gen_key\<close> hands the result of \<^verbatim>\<open>find_generator\<close>, an integer or Python's \<^verbatim>\<open>None\<close>, to
  \<^verbatim>\<open>quick_pow\<close> as its base. With the base \<^verbatim>\<open>None\<close> the first multiplication of the loop
  raises \<^verbatim>\<open>TypeError\<close>; with \<open>e = 0\<close> the loop is not entered.
\<close>

definition quick_pow_base :: "int option \<Rightarrow> int \<Rightarrow> int \<Rightarrow> int result" where
  "quick_pow_base m e n =
     (case m of
        Some v \<Rightarrow> quick_pow v e n
      | None \<Rightarrow> if e = 0 then Some (Inr 1) else Some (Inl TypeError))"

definition gen_key_from :: "int \<Rightarrow> int option \<Rightarrow> tape \<Rightarrow> nat \<Rightarrow> ((int \<times> int option \<times> int \<times> int) \<times> nat) result" where
  "gen_key_from p g rnd i =
     rbind (draw 2 (p - 2) rnd i) (\<lambda>(x, i').
       rbind (quick_pow_base g x p) (\<lambda>y. Some (Inr ((p, g, y, x), i'))))"

definition gen_key :: "tape \<Rightarrow> nat \<Rightarrow> ((int \<times> int option \<times> int \<times> int) \<times> nat) result" where
  "gen_key rnd i =
     rbind (gen_large_prime rnd i) (\<lambda>(p, i1).
       rbind (find_generator p) (\<lambda>g. gen_key_from p g rnd i1))"

section \<open>Extended Euclid and the modular inverse\<close>

text \<open>
  \<^verbatim>\<open>extended_gcd(a, b)\<close> returns \<open>(a, 1, 0)\<close> for \<open>b = 0\<close> and otherwise recurses on
  \<open>(b, a % b)\<close>; the absolute value of the second argument decreases, so the recursion ends
  for all integers (the interpreter's bound on the recursion depth is not modelled).
  \<^verbatim>\<open>mod_inverse(e, phi_n)\<close> raises \<^verbatim>\<open>ValueError\<close> unless the first component is \<open>1\<close> and
  returns \<^verbatim>\<open>x % phi_n\<close>.
\<close>

function extended_gcd :: "int \<Rightarrow> int \<Rightarrow> int \<times> int \<times> int" where
  "extended_gcd a b =
     (if b = 0 then (a, 1, 0)
      else (case extended_gcd b (a mod b) of
              (gcd', x1, y1) \<Rightarrow> (gcd', y1, x1 - (a div b) * y1)))"
  by pat_completeness auto
termination
  by (relation "measure (\<lambda>(a, b). nat \<bar>b\<bar>)") (auto simp: abs_mod_less)


section \<open>ElGamal signatures\<close>

text \<open>
  \<^verbatim>\<open>signmsg(m, p, g, x)\<close> draws \<^verbatim>\<open>k = random.randint(2, p - 2)\<close> until the first component of
  \<^verbatim>\<open>extended_gcd(k, p - 1)\<close> is \<open>1\<close>, takes the second component as \<^verbatim>\<open>k_inv\<close>, and returns
  \<^verbatim>\<open>r = quick_pow(g, k, p)\<close> and \<^verbatim>\<open>s = k_inv * (H_int - x * r) % (p - 1)\<close>. \<^verbatim>\<open>verify\<close> compares
  \<^verbatim>\<open>quick_pow(y, r, p) * quick_pow(r, s, p) % p\<close> with \<^verbatim>\<open>quick_pow(g, H_int, p)\<close>.
  The digest comes from \<^verbatim>\<open>hashlib\<close>: \<^verbatim>\<open>int(sha256(m.encode()).hexdigest(), 16)\<close> is a
  natural number below \<open>2 ^ 256\<close>. The hash is a parameter \<open>sha256\<close> of the model.
\<close>

partial_function (option) signmsg_choose_k :: "int \<Rightarrow> tape \<Rightarrow> nat \<Rightarrow> (int \<times> int \<times> nat) result" where
  "signmsg_choose_k p rnd i =
     rbind (draw 2 (p - 2) rnd i) (\<lambda>(k, i').
       case extended_gcd k (p - 1) of
         (gcd', k_inv, _) \<Rightarrow>
           if gcd' = 1 then Some (Inr (k, k_inv, i')) else signmsg_choose_k p rnd i')"

definition signmsg :: "(string \<Rightarrow> nat) \<Rightarrow> string \<Rightarrow> int \<Rightarrow> int \<Rightarrow> int \<Rightarrow> tape \<Rightarrow> nat \<Rightarrow> ((int \<times> int) \<times> nat) result" where
  "signmsg sha256 m p g x rnd i =
     rbind (signmsg_choose_k p rnd i) (\<lambda>(k, k_inv, i').
       let H_int = int (sha256 m) in
       rbind (quick_pow g k p) (\<lambda>r.
         if p - 1 = 0 then Some (Inl ZeroDivisionError)
         else Some (Inr ((r, (k_inv * (H_int - x * r)) mod (p - 1)), i'))))"

definition verify :: "(string \<Rightarrow> nat) \<Rightarrow> string \<Rightarrow> int \<Rightarrow> int \<Rightarrow> int \<Rightarrow> int \<Rightarrow> int \<Rightarrow> bool result" where
  "verify sha256 m r s p g y =
     (let H_int = int (sha256 m) in
      rbind (quick_pow y r p) (\<lambda>a.
        rbind (quick_pow r s p) (\<lambda>b.
          if p = 0 then Some (Inl ZeroDivisionError)
          else rbind (quick_pow g H_int p) (\<lambda>gH.
            Some (Inr (a * b mod p = gH))))))"

section \<open>RSA\<close>

text \<open>
  \<^verbatim>\<open>rsa_encrypt\<close> and \<^verbatim>\<open>rsa_decrypt\<close> append \<^verbatim>\<open>quick_pow(m, e, n)\<close>, respectively
  \<^verbatim>\<open>quick_pow(c, d, n)\<close>, for each element of the input list in turn.
\<close>

fun rsa_encrypt_loop :: "int list \<Rightarrow> int list \<Rightarrow> int \<Rightarrow> int \<Rightarrow> int list result" where
  "rsa_encrypt_loop ciphertext_list [] e n = Some (Inr ciphertext_list)"
| "rsa_encrypt_loop ciphertext_list (m # ms) e n =
     rbind (quick_pow m e n) (\<lambda>c. rsa_encrypt_loop (ciphertext_list @ [c]) ms e n)"

definition rsa_encrypt :: "int list \<Rightarrow> int \<Rightarrow> int \<Rightarrow> int list result" where
  "rsa_encrypt plaintext_list e n = rsa_encrypt_loop [] plaintext_list e n"

fun rsa_decrypt_loop :: "int list \<Rightarrow> int list \<Rightarrow> int \<Rightarrow> int \<Rightarrow> int list result" where
  "rsa_decrypt_loop plaintext_list [] d n = Some (Inr plaintext_list)"
| "rsa_decrypt_loop plaintext_list (c # cs) d n =
     rbind (quick_pow c d n) (\<lambda>m. rsa_decrypt_loop (plaintext_list @ [m]) cs d n)"

definition rsa_decrypt :: "int list \<Rightarrow> int \<Rightarrow> int \<Rightarrow> int list result" where
  "rsa_decrypt ciphertext_list d n = rsa_decrypt_loop [] ciphertext_list d n"

section \<open>Primes, as the specification speaks of them\<close>

definition prime_int :: "int \<Rightarrow> bool" where
  "prime_int p \<longleftrightarrow> 1 < p \<and> list_all (\<lambda>d. \<not> d dvd p) [2..p - 1]"

definition safe_prime :: "int \<Rightarrow> bool" where
  "safe_prime p \<longleftrightarrow> prime_int p \<and> prime_int ((p - 1) div 2)"

text \<open>
  The test of \<^verbatim>\<open>find_generator\<close>'s loop, \<^verbatim>\<open>quick_pow(g, 2, p) != 1 and quick_pow(g, q, p) != 1\<close>
  with \<open>q = (p - 1) // 2\<close>, as a condition on \<open>g\<close> and \<open>p\<close>.
\<close>

definition generator_test :: "int \<Rightarrow> int \<Rightarrow> bool" where
  "generator_test g p \<longleftrightarrow> g ^ 2 mod p \<noteq> 1 \<and> g ^ nat ((p - 1) div 2) mod p \<noteq> 1"

section \<open>A run of the random source\<close>

text \<open>
  A sequence of raw draws used to run the generators on a concrete input: the first draw
  selects the candidate \<open>2 ^ 63 + 28155 = 9223372036854803963\<close>, every later draw is \<open>0\<close>.
\<close>

definition example_tape :: tape where
  "example_tape i = (if i = 0 then 28155 else 0)"

section \<open>Helper lemmas: results and modular exponentiation\<close>

text \<open>The recursive equations are unfolded by hand, one call at a time.\<close>

declare extended_gcd.simps [simp del]
declare find_generator_loop.simps [simp del]

lemma rbind_simps [simp]:
  "rbind None f = None"
  "rbind (Some (Inl e)) f = Some (Inl e)"
  "rbind (Some (Inr v)) f = f v"
  by (simp_all add: rbind_def)

lemma rbind_eq_Some_Inr:
  "rbind r f = Some (Inr y) \<longleftrightarrow> (\<exists>v. r = Some (Inr v) \<and> f v = Some (Inr y))"
  by (auto simp: rbind_def split: option.splits sum.splits)

lemma quick_pow_loop_pos:
  "0 < e \<Longrightarrow> n \<noteq> 0 \<Longrightarrow> quick_pow_loop ans m e n = Some (Inr (ans * m ^ nat e mod n))"
proof (induction "nat e" arbitrary: ans m e rule: less_induct)
  case less
  let ?a = "if e AND 1 \<noteq> 0 then (ans * m) mod n else ans"
  let ?h = "e div 2"
  have step: "quick_pow_loop ans m e n = quick_pow_loop ?a (m * m mod n) ?h n"
    using less.prems by (subst quick_pow_loop.simps) (simp add: drop_bit_eq_div)
  have a1: "e AND 1 = e mod 2" by (simp add: and_one_eq)
  have "int (2 * nat ?h + nat (e mod 2)) = e" using less.prems by simp
  then have e_eq: "nat e = 2 * nat ?h + nat (e mod 2)" by linarith
  have pw: "(m * m mod n) ^ nat ?h mod n = m ^ (2 * nat ?h) mod n"
    by (simp add: power_mod power_mult power2_eq_square)
  show ?case
  proof (cases "?h = 0")
    case True
    with less.prems have e1: "e = 1" by presburger
    have "quick_pow_loop ?a (m * m mod n) 0 n = Some (Inr ?a)"
      by (subst quick_pow_loop.simps) simp
    with step True e1 show ?thesis by simp
  next
    case False
    with less.prems have hpos: "0 < ?h" by presburger
    have hlt: "nat ?h < nat e" using less.prems by simp
    have IH: "quick_pow_loop ?a (m * m mod n) ?h n = Some (Inr (?a * (m * m mod n) ^ nat ?h mod n))"
      using less.hyps [OF hlt hpos less.prems(2)] .
    have "?a * (m * m mod n) ^ nat ?h mod n = ans * m ^ nat e mod n"
    proof (cases "e mod 2 = 0")
      case True
      then have "nat e = 2 * nat ?h" using e_eq by simp
      moreover have "ans * (m * m mod n) ^ nat ?h mod n = ans * m ^ (2 * nat ?h) mod n"
        by (metis pw mod_mult_right_eq)
      ultimately show ?thesis using True a1 by simp
    next
      case False
      then have m1: "e mod 2 = 1" by presburger
      then have ne: "nat e = Suc (2 * nat ?h)" using e_eq by simp
      have "(ans * m mod n) * (m * m mod n) ^ nat ?h mod n
            = (ans * m mod n) * (m ^ (2 * nat ?h) mod n) mod n"
        by (metis pw mod_mult_right_eq)
      also have "\<dots> = (ans * m) * m ^ (2 * nat ?h) mod n"
        by (simp add: mod_mult_eq)
      finally show ?thesis using m1 a1 ne by (simp add: mult.assoc)
    qed
    with step IH show ?thesis by simp
  qed
qed

lemma quick_pow_zero: "quick_pow m 0 n = Some (Inr 1)"
  unfolding quick_pow_def by (subst quick_pow_loop.simps) simp

lemma quick_pow_pos: "0 < e \<Longrightarrow> n \<noteq> 0 \<Longrightarrow> quick_pow m e n = Some (Inr (m ^ nat e mod n))"
  unfolding quick_pow_def by (simp add: quick_pow_loop_pos)

lemma quick_pow_nonneg: "0 \<le> e \<Longrightarrow> 1 < n \<Longrightarrow> quick_pow m e n = Some (Inr (m ^ nat e mod n))"
  by (cases "e = 0") (simp_all add: quick_pow_zero quick_pow_pos)

lemma quick_pow_loop_returns:
  assumes "quick_pow_loop ans m e n = Some y"
  shows "0 \<le> e \<or> n = 0"
proof (rule quick_pow_loop.raw_induct [where P = "\<lambda>ans m e n y. 0 \<le> e \<or> n = 0", OF _ assms])
  fix f :: "int \<Rightarrow> int \<Rightarrow> int \<Rightarrow> int \<Rightarrow> int result" and ans m e n y
  assume IH: "\<And>ans m e n y. f ans m e n = Some y \<Longrightarrow> 0 \<le> e \<or> n = 0"
    and body: "(if e = 0 then Some (Inr ans)
      else if n = 0 then Some (Inl ZeroDivisionError)
      else f (if e AND 1 \<noteq> 0 then (ans * m) mod n else ans)
             (m * m mod n) (drop_bit 1 e) n) = Some y"
  show "0 \<le> e \<or> n = 0"
  proof (cases "e = 0 \<or> n = 0")
    case True
    then show ?thesis by auto
  next
    case False
    with body have "f (if e AND 1 \<noteq> 0 then (ans * m) mod n else ans)
             (m * m mod n) (drop_bit 1 e) n = Some y" by simp
    from IH [OF this] False have "0 \<le> e div 2" by (simp add: drop_bit_eq_div)
    then show ?thesis by simp
  qed
qed

lemma quick_pow_negative: "e < 0 \<Longrightarrow> n \<noteq> 0 \<Longrightarrow> quick_pow m e n = None"
  unfolding quick_pow_def using quick_pow_loop_returns [of 1 m e n] by (cases "quick_pow_loop 1 m e n") auto

section \<open>C5: modular exponentiation\<close>




section \<open>C6: the extended Euclidean algorithm\<close>

lemma extended_gcd_zero: "extended_gcd a 0 = (a, 1, 0)"
  by (subst extended_gcd.simps) simp

lemma extended_gcd_step:
  "b \<noteq> 0 \<Longrightarrow> extended_gcd a b =
     (case extended_gcd b (a mod b) of (g, x1, y1) \<Rightarrow> (g, y1, x1 - (a div b) * y1))"
  by (subst extended_gcd.simps) simp

lemma extended_gcd_bezout:
  "extended_gcd a b = (g, x, y) \<Longrightarrow> a * x + b * y = g"
proof (induction a b arbitrary: g x y rule: extended_gcd.induct)
  case (1 a b)
  show ?case
  proof (cases "b = 0")
    case True
    with "1.prems" show ?thesis by (simp add: extended_gcd_zero)
  next
    case False
    obtain g' x1 y1 where rec: "extended_gcd b (a mod b) = (g', x1, y1)"
      by (cases "extended_gcd b (a mod b)") auto
    from "1.IH" [OF False rec] have IH: "b * x1 + (a mod b) * y1 = g'" .
    from "1.prems" False rec have eqs: "g = g'" "x = y1" "y = x1 - (a div b) * y1"
      by (auto simp: extended_gcd_step)
    have "a * y1 + b * (x1 - (a div b) * y1) = b * x1 + (a - b * (a div b)) * y1"
      by (simp add: algebra_simps)
    also have "a - b * (a div b) = a mod b"
      by (simp add: minus_mult_div_eq_mod)
    finally show ?thesis using IH eqs by simp
  qed
qed





section \<open>C3: the modular inverse\<close>








section \<open>C4: the Miller-Rabin witness\<close>

lemma randint_range:
  "randint a b raw = Inr v \<Longrightarrow> a \<le> v \<and> v \<le> b"
proof -
  assume r: "randint a b raw = Inr v"
  then have ab: "a \<le> b" by (auto simp: randint_def split: if_splits)
  from r ab have v: "v = a + int raw mod (b - a + 1)" by (simp add: randint_def)
  have "0 \<le> int raw mod (b - a + 1)"
    using ab by simp
  moreover have "int raw mod (b - a + 1) < b - a + 1"
    using ab by (intro pos_mod_bound) simp
  ultimately show ?thesis using v by linarith
qed

lemma randint_onto:
  assumes "a \<le> v" "v \<le> b"
  shows "randint a b (nat (v - a)) = Inr v"
  using assms by (simp add: randint_def)

lemma randint_error: "randint a b raw = Inl e \<longleftrightarrow> b < a \<and> e = ValueError"
  by (auto simp: randint_def)

text \<open>
  Claim C4, with the interval the code draws from. For every odd \<open>n \<ge> 5\<close>, the witness of
  a Miller-Rabin trial is \<^verbatim>\<open>2 + random.randint(1, n - 4)\<close>: it lies in \<open>[3, n - 2]\<close>, every
  integer of \<open>[3, n - 2]\<close> is a possible witness, and \<open>2\<close> is not. (Probabilities are not
  part of the model: the statement is about which values a draw can take.)
\<close>

theorem miller_rabin_witness_range:
  "5 \<le> n \<Longrightarrow> odd n \<Longrightarrow>
     (\<forall>raw. \<exists>a. miller_rabin_witness n raw = Inr a \<and> 3 \<le> a \<and> a \<le> n - 2) \<and>
     (\<forall>a. 3 \<le> a \<and> a \<le> n - 2 \<longrightarrow> (\<exists>raw. miller_rabin_witness n raw = Inr a)) \<and>
     Inr 2 \<notin> range (miller_rabin_witness n)"
proof (intro conjI allI impI)
  assume n: "5 \<le> n"
  fix raw
  obtain v where v: "randint 1 (n - 4) raw = Inr v"
    using n by (cases "randint 1 (n - 4) raw") (auto simp: randint_error)
  from randint_range [OF v] have "1 \<le> v" "v \<le> n - 4" by simp_all
  with v show "\<exists>a. miller_rabin_witness n raw = Inr a \<and> 3 \<le> a \<and> a \<le> n - 2"
    by (simp add: miller_rabin_witness_def)
next
  fix a :: int
  assume "3 \<le> a \<and> a \<le> n - 2"
  then have "randint 1 (n - 4) (nat (a - 2 - 1)) = Inr (a - 2)"
    by (intro randint_onto) simp_all
  then have "miller_rabin_witness n (nat (a - 2 - 1)) = Inr a"
    by (simp add: miller_rabin_witness_def)
  then show "\<exists>raw. miller_rabin_witness n raw = Inr a" ..
next
  show "Inr 2 \<notin> range (miller_rabin_witness n)"
  proof
    assume "Inr 2 \<in> range (miller_rabin_witness n)"
    then obtain raw where r: "miller_rabin_witness n raw = Inr 2" by (auto simp: image_iff)
    then obtain v where v: "randint 1 (n - 4) raw = Inr v" and "2 + v = 2"
      by (auto simp: miller_rabin_witness_def split: sum.splits)
    with randint_range [OF v] show False by simp
  qed
qed

theorem miller_rabin_witness_range_witness:
  "(5::int) \<le> 7 \<and> odd (7::int) \<and> miller_rabin_witness 7 0 = Inr 3 \<and> miller_rabin_witness 7 2 = Inr 5
     \<and> Inr 2 \<notin> range (miller_rabin_witness 7)"
  using miller_rabin_witness_range [of 7] by (simp add: miller_rabin_witness_def randint_def)

text \<open>
  For \<open>n = 7\<close> the claimed interval is \<open>[2, 5]\<close>, and no draw gives the witness \<open>2\<close>.
\<close>

theorem miller_rabin_witness_two_counterexample:
  "(5::int) \<le> 7 \<and> odd (7::int) \<and> 2 \<in> {2..7 - 2::int} \<and> Inr 2 \<notin> range (miller_rabin_witness 7)"
proof -
  have "Inr 2 \<noteq> miller_rabin_witness 7 raw" for raw
  proof -
    have "0 \<le> int raw mod 3" by simp
    then show ?thesis by (simp add: miller_rabin_witness_def randint_def)
  qed
  then show ?thesis by (simp add: image_iff)
qed

section \<open>C8: the range of a signature\<close>

lemma draw_Some_Inr:
  "draw a b rnd i = Some (Inr (v, i')) \<Longrightarrow> a \<le> v \<and> v \<le> b \<and> i' = Suc i"
  by (auto simp: draw_def split: sum.splits dest: randint_range)

lemma signmsg_choose_k_returns:
  assumes "signmsg_choose_k p rnd i = Some (Inr (k, k_inv, i'))"
  shows "2 \<le> k \<and> k \<le> p - 2 \<and> (\<exists>c. extended_gcd k (p - 1) = (1, k_inv, c))"
proof -
  have "\<forall>k k_inv i'. y = Inr (k, k_inv, i') \<longrightarrow>
          2 \<le> k \<and> k \<le> p - 2 \<and> (\<exists>c. extended_gcd k (p - 1) = (1, k_inv, c))"
    if "signmsg_choose_k p rnd i = Some y" for y
  proof (rule signmsg_choose_k.raw_induct [where P = "\<lambda>p rnd i y. \<forall>k k_inv i'. y = Inr (k, k_inv, i') \<longrightarrow>
          2 \<le> k \<and> k \<le> p - 2 \<and> (\<exists>c. extended_gcd k (p - 1) = (1, k_inv, c))", OF _ that])
    fix f :: "int \<Rightarrow> tape \<Rightarrow> nat \<Rightarrow> (int \<times> int \<times> nat) result" and p rnd i y
    assume IH: "\<And>p rnd i y. f p rnd i = Some y \<Longrightarrow> \<forall>k k_inv i'. y = Inr (k, k_inv, i') \<longrightarrow>
          2 \<le> k \<and> k \<le> p - 2 \<and> (\<exists>c. extended_gcd k (p - 1) = (1, k_inv, c))"
      and body: "rbind (draw 2 (p - 2) rnd i) (\<lambda>(k, i').
         case extended_gcd k (p - 1) of
           (gcd', k_inv, _) \<Rightarrow>
             if gcd' = 1 then Some (Inr (k, k_inv, i')) else f p rnd i') = Some y"
    show "\<forall>k k_inv i'. y = Inr (k, k_inv, i') \<longrightarrow>
          2 \<le> k \<and> k \<le> p - 2 \<and> (\<exists>c. extended_gcd k (p - 1) = (1, k_inv, c))"
    proof (intro allI impI)
      fix k k_inv i'
      assume y: "y = Inr (k, k_inv, i')"
      from body y obtain k0 i0 where d: "draw 2 (p - 2) rnd i = Some (Inr (k0, i0))"
        and rest: "(case extended_gcd k0 (p - 1) of
           (gcd', k_inv, _) \<Rightarrow>
             if gcd' = 1 then Some (Inr (k0, k_inv, i0)) else f p rnd i0) = Some (Inr (k, k_inv, i'))"
        by (auto simp: rbind_def split: option.splits sum.splits)
      obtain g0 a0 c0 where e: "extended_gcd k0 (p - 1) = (g0, a0, c0)"
        by (cases "extended_gcd k0 (p - 1)") auto
      show "2 \<le> k \<and> k \<le> p - 2 \<and> (\<exists>c. extended_gcd k (p - 1) = (1, k_inv, c))"
      proof (cases "g0 = 1")
        case True
        with rest e have "k = k0" "k_inv = a0" by simp_all
        with draw_Some_Inr [OF d] e True show ?thesis by simp
      next
        case False
        with rest e have "f p rnd i0 = Some (Inr (k, k_inv, i'))" by simp
        from IH [OF this] show ?thesis by simp
      qed
    qed
  qed
  from this [OF assms] show ?thesis by simp
qed

text \<open>
  Claim C8. Every signature \<open>(r, s)\<close> returned by \<^verbatim>\<open>signmsg(m, p, g, x)\<close> satisfies
  \<open>0 \<le> r < p\<close> and \<open>0 \<le> s < p - 1\<close>, whatever the signs of \<open>H - x * r\<close> and of the
  Bezout coefficient used as the inverse of \<open>k\<close>.
\<close>

theorem signmsg_range:
  "signmsg sha256 m p g x rnd i = Some (Inr ((r, s), i')) \<Longrightarrow>
     0 \<le> r \<and> r < p \<and> 0 \<le> s \<and> s < p - 1"
proof -
  assume sg: "signmsg sha256 m p g x rnd i = Some (Inr ((r, s), i'))"
  then obtain k k_inv i1 where ch: "signmsg_choose_k p rnd i = Some (Inr (k, k_inv, i1))"
    and rest: "rbind (quick_pow g k p) (\<lambda>r.
         if p - 1 = 0 then Some (Inl ZeroDivisionError)
         else Some (Inr ((r, (k_inv * (int (sha256 m) - x * r)) mod (p - 1)), i1))) = Some (Inr ((r, s), i'))"
    by (auto simp: signmsg_def rbind_def Let_def split: option.splits sum.splits)
  from signmsg_choose_k_returns [OF ch] have k: "2 \<le> k" "k \<le> p - 2" by simp_all
  then have p: "4 \<le> p" by linarith
  have qp: "quick_pow g k p = Some (Inr (g ^ nat k mod p))"
    using k p by (intro quick_pow_pos) simp_all
  from rest qp p have r: "r = g ^ nat k mod p" and s: "s = (k_inv * (int (sha256 m) - x * r)) mod (p - 1)"
    by (auto split: if_splits)
  from p have "0 \<le> g ^ nat k mod p" "g ^ nat k mod p < p" by simp_all
  moreover from p have "0 \<le> (k_inv * (int (sha256 m) - x * r)) mod (p - 1)"
    "(k_inv * (int (sha256 m) - x * r)) mod (p - 1) < p - 1" by simp_all
  ultimately show ?thesis using r s by simp
qed

lemma signmsg_choose_k_23: "signmsg_choose_k 23 (\<lambda>_. 1) 0 = Some (Inr (3, - 7, 1))"
  by (subst signmsg_choose_k.simps) (simp add: draw_def randint_def extended_gcd.simps)

lemma signmsg_23:
  "signmsg (\<lambda>_. 72155939486846849509759369733266486982821795810448245423168957390607644363272)
      ''test'' 23 5 6 (\<lambda>_. 1) 0 = Some (Inr ((10, 6), 1))"
  by (subst signmsg_def, subst signmsg_choose_k_23) (simp add: quick_pow_pos)

theorem signmsg_range_witness:
  "signmsg (\<lambda>_. 72155939486846849509759369733266486982821795810448245423168957390607644363272)
      ''test'' 23 5 6 (\<lambda>_. 1) 0 = Some (Inr ((10, 6), 1)) \<and>
   (0::int) \<le> 10 \<and> (10::int) < 23 \<and> (0::int) \<le> 6 \<and> (6::int) < 23 - 1"
  using signmsg_range [OF signmsg_23] signmsg_23 by simp

section \<open>Primes: Fermat's little theorem\<close>

lemma prime_int_no_divisor: "prime_int p \<Longrightarrow> 2 \<le> d \<Longrightarrow> d < p \<Longrightarrow> \<not> d dvd p"
  by (simp add: prime_int_def list_all_iff)

lemma prime_int_coprime_or_dvd:
  assumes "prime_int p"
  shows "coprime p a \<or> p dvd a"
proof -
  let ?d = "gcd p a"
  have p1: "1 < p" using assms by (simp add: prime_int_def)
  have d0: "0 \<le> ?d" by simp
  have dp: "?d dvd p" by simp
  then have dle: "?d \<le> p" using p1 by (intro zdvd_imp_le) auto
  have dn0: "?d \<noteq> 0" using p1 by auto
  show ?thesis
  proof (cases "?d = 1")
    case True
    then show ?thesis by (simp add: coprime_iff_gcd_eq_1)
  next
    case False
    with d0 dn0 have "2 \<le> ?d" by linarith
    have "\<not> ?d < p"
    proof
      assume "?d < p"
      with \<open>2 \<le> ?d\<close> assms have "\<not> ?d dvd p" by (intro prime_int_no_divisor)
      with dp show False by simp
    qed
    with dle have "?d = p" by simp
    then have "p dvd a" by (metis gcd_dvd2)
    then show ?thesis ..
  qed
qed

lemma prime_int_dvd_mult:
  assumes "prime_int p" "p dvd a * b"
  shows "p dvd a \<or> p dvd b"
  using prime_int_coprime_or_dvd [OF assms(1), of a] assms(2)
  by (auto simp: coprime_dvd_mult_right_iff)

lemma prime_int_dvd_power:
  assumes "prime_int p" "p dvd a ^ n"
  shows "p dvd a"
  using assms(2)
proof (induction n)
  case 0
  then show ?case using assms(1) by (simp add: prime_int_def)
next
  case (Suc n)
  then show ?case using prime_int_dvd_mult [OF assms(1), of a "a ^ n"] by auto
qed

lemma prime_int_dvd_binomial:
  assumes "prime_int p" "0 < k" "k < nat p"
  shows "p dvd int (nat p choose k)"
proof -
  have p1: "1 < p" using assms by (simp add: prime_int_def)
  have "k * (nat p choose k) = nat p * ((nat p - 1) choose (k - 1))"
    using assms(2) by (rule times_binomial_minus1_eq)
  then have "int k * int (nat p choose k) = p * int ((nat p - 1) choose (k - 1))"
    using p1 by (metis int_nat_eq of_nat_mult less_imp_le zero_le_one order_trans)
  then have "p dvd int k * int (nat p choose k)" by simp
  moreover have "\<not> p dvd int k"
  proof
    assume "p dvd int k"
    then have "p \<le> int k" using assms(2) by (intro zdvd_imp_le) auto
    with assms(3) show False by linarith
  qed
  ultimately show ?thesis using prime_int_dvd_mult [OF assms(1)] by blast
qed

lemma fermat_nat_base:
  assumes "prime_int p"
  shows "(int n) ^ nat p mod p = int n mod p"
proof (induction n)
  case 0
  then show ?case using assms by (simp add: prime_int_def power_0_left)
next
  case (Suc n)
  let ?P = "nat p"
  have p1: "1 < p" using assms by (simp add: prime_int_def)
  have P1: "1 < ?P" using p1 by simp
  let ?f = "\<lambda>k. int (?P choose k) * int n ^ k"
  have expand: "(int n + 1) ^ ?P = (\<Sum>k\<le>?P. ?f k)"
    by (simp add: binomial_ring)
  have split: "{..?P} = insert 0 (insert ?P {0<..<?P})" using P1 by auto
  have sum_eq: "(\<Sum>k\<le>?P. ?f k) = ?f 0 + (?f ?P + (\<Sum>k\<in>{0<..<?P}. ?f k))"
    unfolding split using P1 by (subst sum.insert; simp)+
  have mid: "p dvd (\<Sum>k\<in>{0<..<?P}. ?f k)"
    by (rule dvd_sum) (simp add: prime_int_dvd_binomial [OF assms])
  have "(int n + 1) ^ ?P mod p = (1 + int n ^ ?P + (\<Sum>k\<in>{0<..<?P}. ?f k)) mod p"
    unfolding expand sum_eq by (simp add: add.assoc)
  also have "\<dots> = (1 + int n ^ ?P) mod p"
    using mid by (metis mod_add_self2 dvd_def mod_mult_self2 mult.commute)
  also have "\<dots> = (1 + int n ^ ?P mod p) mod p" by (simp add: mod_add_right_eq)
  also have "\<dots> = (1 + int n) mod p" using Suc.IH by (simp add: mod_add_right_eq)
  finally show ?case by (simp add: add.commute)
qed

lemma fermat_power_p:
  assumes "prime_int p"
  shows "(a::int) ^ nat p mod p = a mod p"
proof -
  have p1: "1 < p" using assms by (simp add: prime_int_def)
  then have "0 \<le> a mod p" by simp
  then obtain n where n: "a mod p = int n" using nonneg_int_cases by blast
  have "a ^ nat p mod p = (a mod p) ^ nat p mod p" by (simp add: power_mod)
  also have "\<dots> = int n mod p" unfolding n by (rule fermat_nat_base [OF assms])
  also have "\<dots> = a mod p" using n by (metis mod_mod_trivial)
  finally show ?thesis .
qed

lemma fermat_little:
  assumes "prime_int p" "\<not> p dvd a"
  shows "(a::int) ^ nat (p - 1) mod p = 1"
proof -
  have p1: "1 < p" using assms by (simp add: prime_int_def)
  have "nat p = Suc (nat (p - 1))" using p1 by simp
  then have "a ^ nat p = a * a ^ nat (p - 1)" by simp
  then have "(a * a ^ nat (p - 1)) mod p = a mod p" using fermat_power_p [OF assms(1), of a] by simp
  then have "p dvd a * a ^ nat (p - 1) - a" by (simp add: mod_eq_dvd_iff)
  then have "p dvd a * (a ^ nat (p - 1) - 1)" by (simp add: algebra_simps)
  then have "p dvd a ^ nat (p - 1) - 1" using prime_int_dvd_mult [OF assms(1)] assms(2) by blast
  then have "a ^ nat (p - 1) mod p = 1 mod p" by (simp add: mod_eq_dvd_iff)
  then show ?thesis using p1 by simp
qed


lemma prime_int_gt_1: "prime_int p \<Longrightarrow> 1 < p"
  by (simp add: prime_int_def)

lemma power_cycle_prime:
  assumes "prime_int p"
  shows "(m::int) ^ Suc (nat (p - 1) * j) mod p = m mod p"
proof (cases "p dvd m")
  case True
  then have "p dvd m ^ Suc (nat (p - 1) * j)" by simp
  with True show ?thesis by (simp add: mod_eq_0_iff_dvd)
next
  case False
  have "m ^ (nat (p - 1) * j) mod p = (m ^ nat (p - 1) mod p) ^ j mod p"
    by (simp add: power_mult power_mod)
  also have "\<dots> = 1 mod p" using fermat_little [OF assms False] by simp
  finally have one: "m ^ (nat (p - 1) * j) mod p = 1 mod p" .
  have "m ^ Suc (nat (p - 1) * j) mod p = (m * (m ^ (nat (p - 1) * j) mod p)) mod p"
    by (simp add: mod_mult_right_eq)
  also have "\<dots> = (m * (1 mod p)) mod p" using one by simp
  also have "\<dots> = m mod p" by (simp add: mod_mult_right_eq)
  finally show ?thesis .
qed

lemma distinct_primes_coprime:
  assumes "prime_int p" "prime_int q" "p \<noteq> q"
  shows "coprime p q"
proof -
  have "\<not> p dvd q"
  proof
    assume d: "p dvd q"
    have "1 < p" "1 < q" using assms by (simp_all add: prime_int_gt_1)
    then have "p \<le> q" using d by (intro zdvd_imp_le) auto
    with assms(3) have "p < q" by simp
    with prime_int_no_divisor [OF assms(2), of p] \<open>1 < p\<close> d show False by simp
  qed
  with prime_int_coprime_or_dvd [OF assms(1), of q] show ?thesis by simp
qed

lemma rsa_power_identity:
  assumes p: "prime_int p" and q: "prime_int q" and pq: "p \<noteq> q"
    and e: "0 \<le> e" and d: "0 \<le> d"
    and ed: "(e * d) mod ((p - 1) * (q - 1)) = 1"
  shows "((m::int) ^ nat e) ^ nat d mod (p * q) = m mod (p * q)"
proof -
  have p1: "1 < p" and q1: "1 < q" using p q by (simp_all add: prime_int_gt_1)
  let ?phi = "(p - 1) * (q - 1)"
  let ?c = "(e * d) div ?phi"
  have phi: "0 < ?phi" using p1 q1 by simp
  have ed0: "0 \<le> e * d" using e d by simp
  have c0: "0 \<le> ?c" using ed0 phi by (simp add: pos_imp_zdiv_nonneg_iff)
  have "e * d = ?phi * ?c + (e * d) mod ?phi" by simp
  then have ed_eq: "e * d = ?phi * ?c + 1" using ed by simp
  have "int (nat e * nat d) = e * d" using e d by simp
  also have "\<dots> = int (Suc (nat (p - 1) * (nat (q - 1) * nat ?c)))"
    using ed_eq p1 q1 c0 by (simp add: mult.assoc)
  finally have t: "nat e * nat d = Suc (nat (p - 1) * (nat (q - 1) * nat ?c))"
    by (simp only: of_nat_eq_iff)
  then have t': "nat e * nat d = Suc (nat (q - 1) * (nat (p - 1) * nat ?c))"
    by (simp add: mult.left_commute)
  have pw: "(m ^ nat e) ^ nat d = m ^ (nat e * nat d)" by (simp add: power_mult)
  have "m ^ (nat e * nat d) mod p = m mod p"
    unfolding t by (rule power_cycle_prime [OF p])
  then have dp: "p dvd m ^ (nat e * nat d) - m" by (simp add: mod_eq_dvd_iff)
  have "m ^ (nat e * nat d) mod q = m mod q"
    unfolding t' by (rule power_cycle_prime [OF q])
  then have dq: "q dvd m ^ (nat e * nat d) - m" by (simp add: mod_eq_dvd_iff)
  have "p * q dvd m ^ (nat e * nat d) - m"
    using dp dq distinct_primes_coprime [OF p q pq] by (rule divides_mult)
  then show ?thesis unfolding pw by (simp add: mod_eq_dvd_iff)
qed

lemma power_exponent_cong_prime:
  fixes g :: int
  assumes p: "prime_int p" and g: "\<not> p dvd g"
    and ab: "int a mod (p - 1) = int b mod (p - 1)"
  shows "g ^ a mod p = g ^ b mod p"
proof -
  have p1: "1 < p" using p by (rule prime_int_gt_1)
  have shift: "g ^ (a + nat (p - 1) * j) mod p = g ^ a mod p" for a j
  proof -
    have "g ^ (nat (p - 1) * j) mod p = (g ^ nat (p - 1) mod p) ^ j mod p"
      by (simp add: power_mult power_mod)
    also have "\<dots> = 1 mod p" using fermat_little [OF p g] by simp
    finally have one: "g ^ (nat (p - 1) * j) mod p = 1 mod p" .
    have "g ^ (a + nat (p - 1) * j) mod p = (g ^ a * (g ^ (nat (p - 1) * j) mod p)) mod p"
      by (simp add: power_add mod_mult_right_eq)
    also have "\<dots> = g ^ a mod p" unfolding one by (simp add: mod_mult_right_eq)
    finally show ?thesis .
  qed
  have le: "g ^ a mod p = g ^ b mod p" if "a \<le> b" and c: "int a mod (p - 1) = int b mod (p - 1)" for a b
  proof -
    from c have "(p - 1) dvd int b - int a" by (metis mod_eq_dvd_iff)
    then obtain c where c: "int b - int a = (p - 1) * c" by (auto simp: dvd_def)
    have "0 \<le> (p - 1) * c" using that c by simp
    then have c0: "0 \<le> c" using p1 by (simp add: zero_le_mult_iff)
    have "int b = int (a + nat (p - 1) * nat c)" using c c0 p1 by simp
    then have "b = a + nat (p - 1) * nat c" by (simp only: of_nat_eq_iff)
    then show ?thesis using shift [of a "nat c"] by simp
  qed
  show ?thesis
  proof (cases "a \<le> b")
    case True
    then show ?thesis using ab by (rule le)
  next
    case False
    then have "b \<le> a" by simp
    then have "g ^ b mod p = g ^ a mod p" using ab [symmetric] by (rule le)
    then show ?thesis by simp
  qed
qed


lemma even_not_prime_int: "2 < n \<Longrightarrow> even n \<Longrightarrow> \<not> prime_int n"
  using prime_int_no_divisor [of n 2] by auto

lemma prime_int_2: "prime_int 2"
  by (simp add: prime_int_def)

lemma prime_int_3: "prime_int 3"
  by (simp add: prime_int_def upto_rec_numeral)

section \<open>C9: the certain answers of the primality oracle\<close>

text \<open>
  Claim C9. \<^verbatim>\<open>is_prime\<close> returns \<^verbatim>\<open>False\<close> for every \<open>n \<le> 1\<close>, \<^verbatim>\<open>True\<close> for \<open>n = 2\<close> and \<open>n = 3\<close>,
  and \<^verbatim>\<open>False\<close> for every even \<open>n > 2\<close>, for every round count \<open>k\<close> and every state of the
  random source, which is left untouched; in each of these cases the answer is whether \<open>n\<close>
  is prime.
\<close>

theorem is_prime_certain_cases:
  "(n \<le> 1 \<longrightarrow> is_prime n k rnd i = Some (Inr (False, i))) \<and>
   (n = 2 \<or> n = 3 \<longrightarrow> is_prime n k rnd i = Some (Inr (True, i))) \<and>
   (2 < n \<and> even n \<longrightarrow> is_prime n k rnd i = Some (Inr (False, i))) \<and>
   (n \<le> 3 \<or> even n \<longrightarrow> is_prime n k rnd i = Some (Inr (prime_int n, i)))"
proof -
  have a: "is_prime n k rnd i = Some (Inr (False, i))" if "n \<le> 1"
    using that by (simp add: is_prime_def)
  have b: "is_prime n k rnd i = Some (Inr (True, i))" if "n = 2 \<or> n = 3"
    using that by (auto simp: is_prime_def)
  have c: "is_prime n k rnd i = Some (Inr (False, i))" if "2 < n \<and> even n"
    using that by (auto simp: is_prime_def)
  have d: "is_prime n k rnd i = Some (Inr (prime_int n, i))" if "n \<le> 3 \<or> even n"
  proof -
    have "n \<le> 1 \<or> (n = 2 \<or> n = 3) \<or> (2 < n \<and> even n)" using that by presburger
    then consider "n \<le> 1" | "n = 2 \<or> n = 3" | "2 < n \<and> even n" by blast
    then show ?thesis
    proof cases
      case 1
      then have "\<not> prime_int n" by (simp add: prime_int_def)
      with a [OF 1] show ?thesis by simp
    next
      case 2
      then have "prime_int n" using prime_int_2 prime_int_3 by auto
      with b [OF 2] show ?thesis by simp
    next
      case 3
      then have "\<not> prime_int n" by (simp add: even_not_prime_int)
      with c [OF 3] show ?thesis by simp
    qed
  qed
  from a b c d show ?thesis by blast
qed


theorem is_prime_certain_cases_witness:
  "is_prime 1 5 (\<lambda>_. 0) 0 = Some (Inr (False, 0)) \<and>
   is_prime 2 5 (\<lambda>_. 0) 0 = Some (Inr (True, 0)) \<and>
   is_prime 3 5 (\<lambda>_. 0) 0 = Some (Inr (True, 0)) \<and>
   is_prime 100 5 (\<lambda>_. 0) 0 = Some (Inr (False, 0))"
  using is_prime_certain_cases [of 1 5 "\<lambda>_. 0" 0] is_prime_certain_cases [of 2 5 "\<lambda>_. 0" 0]
    is_prime_certain_cases [of 3 5 "\<lambda>_. 0" 0] is_prime_certain_cases [of 100 5 "\<lambda>_. 0" 0]
  by simp

section \<open>C1: the RSA round trip\<close>

lemma rsa_encrypt_loop_map:
  "1 < n \<Longrightarrow> 0 \<le> e \<Longrightarrow>
     rsa_encrypt_loop acc ms e n = Some (Inr (acc @ map (\<lambda>m. m ^ nat e mod n) ms))"
  by (induction ms arbitrary: acc) (simp_all add: quick_pow_nonneg)

lemma rsa_decrypt_loop_map:
  "1 < n \<Longrightarrow> 0 \<le> d \<Longrightarrow>
     rsa_decrypt_loop acc cs d n = Some (Inr (acc @ map (\<lambda>c. c ^ nat d mod n) cs))"
  by (induction cs arbitrary: acc) (simp_all add: quick_pow_nonneg)

text \<open>
  Claim C1, for non-negative exponents. For distinct primes \<open>p\<close> and \<open>q\<close>, \<open>n = p * q\<close>,
  exponents \<open>e \<ge> 0\<close> and \<open>d \<ge> 0\<close> with \<open>(e * d) mod ((p - 1) * (q - 1)) = 1\<close>, and every list
  of plaintext integers of \<open>[0, n)\<close>, \<^verbatim>\<open>rsa_decrypt(rsa_encrypt(plaintext, e, n), d, n)\<close>
  returns the original list; in particular a single \<open>m < n\<close> is recovered.
\<close>

theorem rsa_round_trip:
  assumes "prime_int p" and "prime_int q" and "p \<noteq> q" and "n = p * q"
    and "0 \<le> e" and "0 \<le> d" and "(e * d) mod ((p - 1) * (q - 1)) = 1"
    and "\<forall>m \<in> set plaintext_list. 0 \<le> m \<and> m < n"
  shows "rbind (rsa_encrypt plaintext_list e n) (\<lambda>ciphertext_list. rsa_decrypt ciphertext_list d n)
           = Some (Inr plaintext_list) \<and>
         (\<forall>m. 0 \<le> m \<and> m < n \<longrightarrow>
            rbind (rsa_encrypt [m] e n) (\<lambda>ciphertext_list. rsa_decrypt ciphertext_list d n)
              = Some (Inr [m]))"
proof -
  have "1 < p" "1 < q" using assms(1,2) by (simp_all add: prime_int_gt_1)
  then have "1 * 1 < p * q" by (intro mult_strict_mono) simp_all
  then have n1: "1 < n" using assms(4) by simp
  have one: "(m ^ nat e mod n) ^ nat d mod n = m" if "0 \<le> m" "m < n" for m
  proof -
    have "(m ^ nat e mod n) ^ nat d mod n = (m ^ nat e) ^ nat d mod n"
      by (simp add: power_mod)
    also have "\<dots> = m mod n"
      unfolding assms(4) using assms(1,2,3,5,6,7) by (rule rsa_power_identity)
    finally show ?thesis using that by simp
  qed
  have trip: "rbind (rsa_encrypt ms e n) (\<lambda>ciphertext_list. rsa_decrypt ciphertext_list d n)
           = Some (Inr ms)" if "\<forall>m \<in> set ms. 0 \<le> m \<and> m < n" for ms
  proof -
    have "map (\<lambda>c. c ^ nat d mod n) (map (\<lambda>m. m ^ nat e mod n) ms) = ms"
      using that by (induction ms) (simp_all add: one)
    then show ?thesis
      using n1 assms(5,6) by (simp add: rsa_encrypt_def rsa_decrypt_def rsa_encrypt_loop_map rsa_decrypt_loop_map)
  qed
  show ?thesis
  proof (intro conjI allI impI)
    show "rbind (rsa_encrypt plaintext_list e n) (\<lambda>ciphertext_list. rsa_decrypt ciphertext_list d n)
           = Some (Inr plaintext_list)" using assms(8) by (rule trip)
  next
    fix m assume "0 \<le> m \<and> m < n"
    then show "rbind (rsa_encrypt [m] e n) (\<lambda>ciphertext_list. rsa_decrypt ciphertext_list d n)
              = Some (Inr [m])" by (intro trip) simp
  qed
qed

lemma prime_int_61: "prime_int 61"
  by (simp add: prime_int_def upto_rec_numeral)

lemma prime_int_53: "prime_int 53"
  by (simp add: prime_int_def upto_rec_numeral)

theorem rsa_round_trip_witness:
  "prime_int 61 \<and> prime_int 53 \<and> (61::int) \<noteq> 53 \<and> (3233::int) = 61 * 53 \<and> (0::int) \<le> 17
     \<and> (0::int) \<le> 2753 \<and> (17 * 2753) mod ((61 - 1) * (53 - 1)) = (1::int)
     \<and> (0::int) \<le> 65 \<and> (65::int) < 3233 \<and> (0::int) \<le> 0 \<and> (0::int) < 3233
     \<and> (0::int) \<le> 3232 \<and> (3232::int) < 3233
     \<and> rbind (rsa_encrypt [65, 0, 3232] 17 3233) (\<lambda>ciphertext_list. rsa_decrypt ciphertext_list 2753 3233)
           = Some (Inr [65, 0, 3232])
     \<and> rsa_encrypt [65] 17 3233 = Some (Inr [2790])"
proof -
  have enc: "rsa_encrypt [65] 17 3233 = Some (Inr [2790])"
    by (simp add: rsa_encrypt_def quick_pow_pos)
  have h: "(61::int) \<noteq> 53" "(3233::int) = 61 * 53" "(0::int) \<le> 17" "(0::int) \<le> 2753"
    "(17 * 2753) mod ((61 - 1) * (53 - 1)) = (1::int)"
    by simp_all
  have b: "(0::int) \<le> 65" "(65::int) < 3233" "(0::int) \<le> 0" "(0::int) < 3233"
    "(0::int) \<le> 3232" "(3232::int) < 3233"
    by simp_all
  have l: "\<forall>m \<in> set [65, 0, 3232 :: int]. 0 \<le> m \<and> m < 3233" by simp
  have t: "rbind (rsa_encrypt [65, 0, 3232] 17 3233) (\<lambda>ciphertext_list. rsa_decrypt ciphertext_list 2753 3233)
           = Some (Inr [65, 0, 3232])"
    using rsa_round_trip [OF prime_int_61 prime_int_53 h l] by (rule conjunct1)
  show ?thesis by (intro conjI prime_int_61 prime_int_53 h b t enc)
qed

text \<open>
  The exponents \<open>e = d = - 1\<close> satisfy \<open>(e * d) mod ((p - 1) * (q - 1)) = 1\<close>, and
  \<^verbatim>\<open>quick_pow\<close> never returns on a negative exponent (\<^verbatim>\<open>e >>= 1\<close> stays at \<open>- 1\<close>), so
  the encryption of \<open>[65]\<close> under \<open>p = 61\<close>, \<open>q = 53\<close> does not return.
\<close>

theorem rsa_negative_exponent_counterexample:
  "prime_int 61 \<and> prime_int 53 \<and> (61::int) \<noteq> 53 \<and> (3233::int) = 61 * 53
     \<and> ((- 1) * (- 1)) mod ((61 - 1) * (53 - 1)) = (1::int)
     \<and> (0::int) \<le> 65 \<and> (65::int) < 3233
     \<and> rbind (rsa_encrypt [65] (- 1) 3233) (\<lambda>ciphertext_list. rsa_decrypt ciphertext_list (- 1) 3233) = None"
proof -
  have "quick_pow 65 (- 1) 3233 = None" by (rule quick_pow_negative) simp_all
  then have "rsa_encrypt [65] (- 1) 3233 = None" by (simp add: rsa_encrypt_def)
  then show ?thesis using prime_int_61 prime_int_53 by simp
qed

section \<open>C2: signatures verify\<close>

lemma verify_equation:
  assumes "1 < p" "0 \<le> r" "0 \<le> s"
  shows "verify sha256 m r s p g y
           = Some (Inr ((y ^ nat r * r ^ nat s) mod p = g ^ (sha256 m) mod p))"
  using assms by (simp add: verify_def Let_def quick_pow_nonneg mod_mult_eq)

lemma signmsg_returns:
  assumes "signmsg sha256 m p g x rnd i = Some (Inr ((r, s), i'))"
  shows "\<exists>k k_inv c. 2 \<le> k \<and> k \<le> p - 2 \<and> extended_gcd k (p - 1) = (1, k_inv, c) \<and>
           r = g ^ nat k mod p \<and> s = (k_inv * (int (sha256 m) - x * r)) mod (p - 1)"
proof -
  from assms obtain k k_inv i1 where ch: "signmsg_choose_k p rnd i = Some (Inr (k, k_inv, i1))"
    and rest: "rbind (quick_pow g k p) (\<lambda>r.
         if p - 1 = 0 then Some (Inl ZeroDivisionError)
         else Some (Inr ((r, (k_inv * (int (sha256 m) - x * r)) mod (p - 1)), i1))) = Some (Inr ((r, s), i'))"
    by (auto simp: signmsg_def rbind_def Let_def split: option.splits sum.splits)
  from signmsg_choose_k_returns [OF ch] obtain c where k: "2 \<le> k" "k \<le> p - 2"
    and eg: "extended_gcd k (p - 1) = (1, k_inv, c)" by auto
  then have p: "4 \<le> p" by linarith
  have qp: "quick_pow g k p = Some (Inr (g ^ nat k mod p))"
    using k p by (intro quick_pow_pos) simp_all
  from rest qp p have "r = g ^ nat k mod p" "s = (k_inv * (int (sha256 m) - x * r)) mod (p - 1)"
    by (auto split: if_splits)
  with k eg show ?thesis by blast
qed

lemma elgamal_equation:
  fixes g :: int
  assumes p: "prime_int p" and g: "\<not> p dvd g" and x: "0 \<le> x" and k: "0 \<le> k"
    and inv: "k * k_inv + (p - 1) * c = 1"
    and r: "r = g ^ nat k mod p"
    and s: "s = (k_inv * (int H - x * r)) mod (p - 1)"
  shows "((g ^ nat x mod p) ^ nat r * r ^ nat s) mod p = g ^ H mod p"
proof -
  have p1: "1 < p" using p by (rule prime_int_gt_1)
  have r0: "0 \<le> r" using r p1 by simp
  have s0: "0 \<le> s" using s p1 by simp
  have "((g ^ nat x mod p) ^ nat r * r ^ nat s) mod p
          = (((g ^ nat x mod p) ^ nat r mod p) * ((g ^ nat k mod p) ^ nat s mod p)) mod p"
    unfolding r [symmetric] by (simp add: mod_mult_eq)
  also have "\<dots> = (((g ^ nat x) ^ nat r mod p) * ((g ^ nat k) ^ nat s mod p)) mod p"
    by (simp add: power_mod)
  also have "\<dots> = (g ^ nat x) ^ nat r * (g ^ nat k) ^ nat s mod p"
    by (simp add: mod_mult_eq)
  also have "\<dots> = g ^ (nat x * nat r + nat k * nat s) mod p"
    by (simp add: power_add power_mult)
  finally have lhs: "((g ^ nat x mod p) ^ nat r * r ^ nat s) mod p
      = g ^ (nat x * nat r + nat k * nat s) mod p" .
  have "k * k_inv = 1 - (p - 1) * c"
    using inv by linarith
  then have "(k * k_inv) mod (p - 1) = (1 - (p - 1) * c) mod (p - 1)"
    by simp
  also have "\<dots> = 1 mod (p - 1)"
    by (metis mod_diff_right_eq mod_mult_self1_is_0 diff_zero)
  finally have kk: "(k * k_inv) mod (p - 1) = 1 mod (p - 1)" .
  have "(k * s) mod (p - 1) = (k * (k_inv * (int H - x * r))) mod (p - 1)"
    unfolding s by (simp add: mod_mult_right_eq)
  also have "\<dots> = ((k * k_inv) mod (p - 1) * (int H - x * r)) mod (p - 1)"
    by (simp add: mod_mult_left_eq mult.assoc)
  also have "\<dots> = (int H - x * r) mod (p - 1)"
    unfolding kk by (simp add: mod_mult_left_eq)
  finally have ks: "(k * s) mod (p - 1) = (int H - x * r) mod (p - 1)" .
  have "int (nat x * nat r + nat k * nat s) = x * r + k * s"
    using x k r0 s0 by simp
  also have "\<dots> mod (p - 1) = (x * r + (k * s) mod (p - 1)) mod (p - 1)"
    by (simp add: mod_add_right_eq)
  also have "\<dots> = (x * r + (int H - x * r)) mod (p - 1)"
    unfolding ks by (simp add: mod_add_right_eq)
  finally have "int (nat x * nat r + nat k * nat s) mod (p - 1) = int H mod (p - 1)"
    by simp
  from power_exponent_cong_prime [OF p g this] lhs show ?thesis by simp
qed

text \<open>
  Claim C2, for a base \<open>g\<close> that \<open>p\<close> does not divide. For every safe prime \<open>p\<close>, every \<open>g\<close>
  not divisible by \<open>p\<close> with \<open>g ^ 2 mod p \<noteq> 1\<close> and \<open>g ^ ((p - 1) div 2) mod p \<noteq> 1\<close>, every
  private key \<open>1 < x < p - 1\<close> with \<open>y = g ^ x mod p\<close>, every message and every \<open>k\<close> that
  \<^verbatim>\<open>signmsg\<close> settles on, the returned pair \<open>(r, s)\<close> is accepted by \<^verbatim>\<open>verify\<close>, which
  returns whether \<open>y ^ r * r ^ s mod p = g ^ H mod p\<close> for the digest \<open>H\<close> of the message.
  This holds for every hash function with natural-number digests.
\<close>

theorem signmsg_verify:
  assumes "safe_prime p"
    and "g ^ 2 mod p \<noteq> 1" and "g ^ nat ((p - 1) div 2) mod p \<noteq> 1"
    and "\<not> p dvd g"
    and "1 < x" and "x < p - 1"
    and "y = g ^ nat x mod p"
    and "signmsg sha256 m p g x rnd i = Some (Inr ((r, s), i'))"
  shows "verify sha256 m r s p g y = Some (Inr True) \<and>
         verify sha256 m r s p g y
           = Some (Inr ((y ^ nat r * r ^ nat s) mod p = g ^ (sha256 m) mod p))"
proof -
  have p: "prime_int p" using assms(1) by (simp add: safe_prime_def)
  then have p1: "1 < p" by (rule prime_int_gt_1)
  from signmsg_returns [OF assms(8)] obtain k k_inv c where k: "2 \<le> k"
    and eg: "extended_gcd k (p - 1) = (1, k_inv, c)"
    and r: "r = g ^ nat k mod p"
    and s: "s = (k_inv * (int (sha256 m) - x * r)) mod (p - 1)" by blast
  have inv: "k * k_inv + (p - 1) * c = 1" using eg by (rule extended_gcd_bezout)
  have r0: "0 \<le> r" using r p1 by simp
  moreover have s0: "0 \<le> s" using s p1 by simp
  ultimately have v: "verify sha256 m r s p g y
           = Some (Inr ((y ^ nat r * r ^ nat s) mod p = g ^ (sha256 m) mod p))"
    using p1 by (intro verify_equation)
  have "((g ^ nat x mod p) ^ nat r * r ^ nat s) mod p = g ^ (sha256 m) mod p"
    using p assms(4) _ _ inv r s by (rule elgamal_equation) (use assms(5) k in simp_all)
  with v assms(7) show ?thesis by simp
qed


lemma safe_prime_23: "safe_prime 23"
  by (simp add: safe_prime_def prime_int_def upto_rec_numeral)

lemma safe_prime_5: "safe_prime 5"
  by (simp add: safe_prime_def prime_int_def upto_rec_numeral)

text \<open>
  The test vector of the specification: \<open>p = 23\<close>, \<open>g = 5\<close>, \<open>x = 6\<close>, \<open>y = 8\<close>, the message
  \<^verbatim>\<open>"test"\<close> with its SHA-256 digest, and a random source whose first draw gives \<open>k = 3\<close>.
\<close>

theorem signmsg_verify_witness:
  "safe_prime 23 \<and> (5::int) ^ 2 mod 23 \<noteq> 1 \<and> (5::int) ^ nat ((23 - 1) div 2) mod 23 \<noteq> 1
     \<and> \<not> (23::int) dvd 5 \<and> (1::int) < 6 \<and> (6::int) < 23 - 1 \<and> (8::int) = 5 ^ nat 6 mod 23
     \<and> signmsg (\<lambda>_. 72155939486846849509759369733266486982821795810448245423168957390607644363272)
          ''test'' 23 5 6 (\<lambda>_. 1) 0 = Some (Inr ((10, 6), 1))
     \<and> verify (\<lambda>_. 72155939486846849509759369733266486982821795810448245423168957390607644363272)
          ''test'' 10 6 23 5 8 = Some (Inr True)"
proof -
  have h: "(5::int) ^ 2 mod 23 \<noteq> 1" "(5::int) ^ nat ((23 - 1) div 2) mod 23 \<noteq> 1"
    "\<not> (23::int) dvd 5" "(1::int) < 6" "(6::int) < 23 - 1" "(8::int) = 5 ^ nat 6 mod 23"
    by simp_all
  have v: "verify (\<lambda>_. 72155939486846849509759369733266486982821795810448245423168957390607644363272)
          ''test'' 10 6 23 5 8 = Some (Inr True)"
    using signmsg_verify [OF safe_prime_23 h signmsg_23] by (rule conjunct1)
  show ?thesis by (intro conjI safe_prime_23 h signmsg_23 v)
qed

lemma signmsg_choose_k_5: "signmsg_choose_k 5 (\<lambda>_. 1) 0 = Some (Inr (3, - 1, 1))"
  by (subst signmsg_choose_k.simps) (simp add: draw_def randint_def extended_gcd.simps)

text \<open>
  The two tests on \<open>g\<close> do not exclude \<open>g = 0\<close>. For the safe prime \<open>p = 5\<close>, \<open>g = 0\<close>,
  \<open>x = 2\<close>, \<open>y = 0\<close> and the message \<^verbatim>\<open>"test"\<close>, whose SHA-256 digest is a multiple of \<open>4\<close>,
  the draw \<open>k = 3\<close> gives the signature \<open>(0, 0)\<close>; \<^verbatim>\<open>verify\<close> compares
  \<open>0 ^ 0 * 0 ^ 0 mod 5 = 1\<close> with \<open>0 ^ H mod 5 = 0\<close> and returns \<^verbatim>\<open>False\<close>.
\<close>

theorem signmsg_verify_zero_generator_counterexample:
  "safe_prime 5 \<and> (0::int) ^ 2 mod 5 \<noteq> 1 \<and> (0::int) ^ nat ((5 - 1) div 2) mod 5 \<noteq> 1
     \<and> (1::int) < 2 \<and> (2::int) < 5 - 1 \<and> (0::int) = 0 ^ nat 2 mod 5
     \<and> signmsg (\<lambda>_. 72155939486846849509759369733266486982821795810448245423168957390607644363272)
          ''test'' 5 0 2 (\<lambda>_. 1) 0 = Some (Inr ((0, 0), 1))
     \<and> verify (\<lambda>_. 72155939486846849509759369733266486982821795810448245423168957390607644363272)
          ''test'' 0 0 5 0 0 = Some (Inr False)"
proof -
  have h: "(0::int) ^ 2 mod 5 \<noteq> 1" "(0::int) ^ nat ((5 - 1) div 2) mod 5 \<noteq> 1"
    "(1::int) < 2" "(2::int) < 5 - 1" "(0::int) = 0 ^ nat 2 mod 5"
    by simp_all
  have sg: "signmsg (\<lambda>_. 72155939486846849509759369733266486982821795810448245423168957390607644363272)
          ''test'' 5 0 2 (\<lambda>_. 1) 0 = Some (Inr ((0, 0), 1))"
    by (subst signmsg_def, subst signmsg_choose_k_5) (simp add: quick_pow_pos)
  have vf: "verify (\<lambda>_. 72155939486846849509759369733266486982821795810448245423168957390607644363272)
          ''test'' 0 0 5 0 0 = Some (Inr False)"
    by (simp add: verify_def quick_pow_zero quick_pow_pos)
  show ?thesis by (intro conjI safe_prime_5 h sg vf)
qed

section \<open>C7: the safe-prime generator\<close>

lemma gen_large_prime_returns:
  assumes "gen_large_prime rnd i = Some y"
  shows "\<forall>p i'. y = Inr (p, i') \<longrightarrow>
           2 ^ 63 \<le> p \<and> p < 2 ^ 64 \<and>
           (\<exists>i1 i2. is_prime p 5 rnd i1 = Some (Inr (True, i2)) \<and>
                    is_prime ((p - 1) div 2) 5 rnd i2 = Some (Inr (True, i')))"
proof (rule gen_large_prime.raw_induct [where P = "\<lambda>rnd i y. \<forall>p i'. y = Inr (p, i') \<longrightarrow>
           2 ^ 63 \<le> p \<and> p < 2 ^ 64 \<and>
           (\<exists>i1 i2. is_prime p 5 rnd i1 = Some (Inr (True, i2)) \<and>
                    is_prime ((p - 1) div 2) 5 rnd i2 = Some (Inr (True, i')))", OF _ assms])
  fix f :: "tape \<Rightarrow> nat \<Rightarrow> (int \<times> nat) result" and rnd i y
  assume IH: "\<And>rnd i y. f rnd i = Some y \<Longrightarrow> \<forall>p i'. y = Inr (p, i') \<longrightarrow>
           2 ^ 63 \<le> p \<and> p < 2 ^ 64 \<and>
           (\<exists>i1 i2. is_prime p 5 rnd i1 = Some (Inr (True, i2)) \<and>
                    is_prime ((p - 1) div 2) 5 rnd i2 = Some (Inr (True, i')))"
    and body: "rbind (draw (2 ^ 63) (2 ^ 64 - 1) rnd i) (\<lambda>(large_prime, i1).
       rbind (is_prime large_prime 5 rnd i1) (\<lambda>(b1, i2).
         if b1 then
           rbind (is_prime ((large_prime - 1) div 2) 5 rnd i2) (\<lambda>(b2, i3).
             if b2 then Some (Inr (large_prime, i3)) else f rnd i3)
         else f rnd i2)) = Some y"
  show "\<forall>p i'. y = Inr (p, i') \<longrightarrow>
           2 ^ 63 \<le> p \<and> p < 2 ^ 64 \<and>
           (\<exists>i1 i2. is_prime p 5 rnd i1 = Some (Inr (True, i2)) \<and>
                    is_prime ((p - 1) div 2) 5 rnd i2 = Some (Inr (True, i')))"
  proof (intro allI impI)
    fix p i'
    assume y: "y = Inr (p, i')"
    from body y obtain lp i1 where d: "draw (2 ^ 63) (2 ^ 64 - 1) rnd i = Some (Inr (lp, i1))"
      and r1: "rbind (is_prime lp 5 rnd i1) (\<lambda>(b1, i2).
         if b1 then
           rbind (is_prime ((lp - 1) div 2) 5 rnd i2) (\<lambda>(b2, i3).
             if b2 then Some (Inr (lp, i3)) else f rnd i3)
         else f rnd i2) = Some (Inr (p, i'))"
      by (auto simp: rbind_eq_Some_Inr)
    from r1 obtain b1 i2 where p1: "is_prime lp 5 rnd i1 = Some (Inr (b1, i2))"
      and r2: "(if b1 then
           rbind (is_prime ((lp - 1) div 2) 5 rnd i2) (\<lambda>(b2, i3).
             if b2 then Some (Inr (lp, i3)) else f rnd i3)
         else f rnd i2) = Some (Inr (p, i'))"
      by (auto simp: rbind_eq_Some_Inr)
    show "2 ^ 63 \<le> p \<and> p < 2 ^ 64 \<and>
           (\<exists>i1 i2. is_prime p 5 rnd i1 = Some (Inr (True, i2)) \<and>
                    is_prime ((p - 1) div 2) 5 rnd i2 = Some (Inr (True, i')))"
    proof (cases b1)
      case False
      with r2 have "f rnd i2 = Some (Inr (p, i'))" by simp
      from IH [OF this] show ?thesis by simp
    next
      case True
      with r2 obtain b2 i3 where p2: "is_prime ((lp - 1) div 2) 5 rnd i2 = Some (Inr (b2, i3))"
        and r3: "(if b2 then Some (Inr (lp, i3)) else f rnd i3) = Some (Inr (p, i'))"
        by (auto simp: rbind_eq_Some_Inr)
      show ?thesis
      proof (cases b2)
        case False
        with r3 have "f rnd i3 = Some (Inr (p, i'))" by simp
        from IH [OF this] show ?thesis by simp
      next
        case b2: True
        with r3 have eq: "lp = p" "i3 = i'" by simp_all
        from draw_Some_Inr [OF d] eq have "2 ^ 63 \<le> p" "p < 2 ^ 64" by simp_all
        moreover have "is_prime p 5 rnd i1 = Some (Inr (True, i2))"
          using p1 True eq by simp
        moreover have "is_prime ((p - 1) div 2) 5 rnd i2 = Some (Inr (True, i'))"
          using p2 b2 eq by simp
        ultimately show ?thesis by blast
      qed
    qed
  qed
qed

text \<open>
  Claim C7. Every value \<open>p\<close> returned by ElGamal's \<^verbatim>\<open>gen_large_prime\<close> lies in
  \<open>[2 ^ 63, 2 ^ 64)\<close>, and in the iteration that returns it both \<^verbatim>\<open>is_prime(p)\<close> and
  \<^verbatim>\<open>is_prime((p - 1) // 2)\<close> returned \<^verbatim>\<open>True\<close>, the second call ending in the state of the
  random source that \<^verbatim>\<open>gen_large_prime\<close> returns with.
\<close>

theorem gen_large_prime_safe:
  "gen_large_prime rnd i = Some (Inr (p, i')) \<Longrightarrow>
     2 ^ 63 \<le> p \<and> p < 2 ^ 64 \<and>
     (\<exists>i1 i2. is_prime p 5 rnd i1 = Some (Inr (True, i2)) \<and>
              is_prime ((p - 1) div 2) 5 rnd i2 = Some (Inr (True, i')))"
  using gen_large_prime_returns [of rnd i "Inr (p, i')"] by simp

text \<open>
  A run on \<open>example_tape\<close>: the candidate is \<open>9223372036854803963\<close>, and every Miller-Rabin
  trial draws the witness \<open>3\<close>.
\<close>

lemma is_prime_rounds_all_pass:
  "(\<And>j. i \<le> j \<Longrightarrow> miller_rabin_test d n rnd j = Some (Inr (True, Suc j))) \<Longrightarrow>
     is_prime_rounds k d n rnd i = Some (Inr (True, i + k))"
proof (induction k arbitrary: i)
  case 0
  then show ?case by simp
next
  case (Suc k)
  have "miller_rabin_test d n rnd i = Some (Inr (True, Suc i))" by (rule Suc.prems) simp
  moreover have "is_prime_rounds k d n rnd (Suc i) = Some (Inr (True, Suc i + k))"
    by (rule Suc.IH) (rule Suc.prems, simp)
  ultimately show ?case by simp
qed

lemma odd_part_p: "odd_part (9223372036854803963 - 1) = Some 4611686018427401981"
  by (simp add: odd_part.simps)

lemma odd_part_q: "odd_part (4611686018427401981 - 1) = Some 1152921504606850495"
  by (simp add: odd_part.simps)

lemma quick_pow_3_q_p: "quick_pow 3 4611686018427401981 9223372036854803963 = Some (Inr 1)"
  unfolding quick_pow_def by (simp add: quick_pow_loop.simps)

lemma quick_pow_3_d_q:
  "quick_pow 3 1152921504606850495 4611686018427401981 = Some (Inr 1641943204114310825)"
  unfolding quick_pow_def by (simp add: quick_pow_loop.simps)


lemma example_tape_later: "0 < j \<Longrightarrow> example_tape j = 0"
  by (simp add: example_tape_def)

lemma miller_rabin_test_p:
  "0 < j \<Longrightarrow> miller_rabin_test 4611686018427401981 9223372036854803963 example_tape j
     = Some (Inr (True, Suc j))"
  by (simp add: miller_rabin_test_def miller_rabin_witness_def randint_def example_tape_later
      quick_pow_3_q_p)

lemma miller_rabin_loop_q:
  "miller_rabin_loop 1641943204114310825 1152921504606850495 4611686018427401981 = Some (Inr True)"
  by (simp add: miller_rabin_loop.simps)

lemma miller_rabin_test_q:
  "0 < j \<Longrightarrow> miller_rabin_test 1152921504606850495 4611686018427401981 example_tape j
     = Some (Inr (True, Suc j))"
  by (simp add: miller_rabin_test_def miller_rabin_witness_def randint_def example_tape_later
      quick_pow_3_d_q miller_rabin_loop_q)

lemma is_prime_example_p:
  "is_prime 9223372036854803963 5 example_tape (Suc 0) = Some (Inr (True, 6))"
proof -
  have "is_prime_rounds 5 4611686018427401981 9223372036854803963 example_tape (Suc 0)
          = Some (Inr (True, Suc 0 + 5))"
    by (rule is_prime_rounds_all_pass) (simp add: miller_rabin_test_p)
  then show ?thesis using odd_part_p by (simp add: is_prime_def)
qed

lemma is_prime_example_q:
  "is_prime 4611686018427401981 5 example_tape 6 = Some (Inr (True, 11))"
proof -
  have "is_prime_rounds 5 1152921504606850495 4611686018427401981 example_tape 6
          = Some (Inr (True, 6 + 5))"
    by (rule is_prime_rounds_all_pass) (simp add: miller_rabin_test_q)
  then show ?thesis using odd_part_q by (simp add: is_prime_def)
qed

lemma draw_example: "draw (2 ^ 63) (2 ^ 64 - 1) example_tape 0 = Some (Inr (9223372036854803963, Suc 0))"
  by (simp add: draw_def randint_def example_tape_def)

lemma gen_large_prime_example:
  "gen_large_prime example_tape 0 = Some (Inr (9223372036854803963, 11))"
  by (subst gen_large_prime.simps, subst draw_example)
     (simp add: is_prime_example_p is_prime_example_q)

theorem gen_large_prime_safe_witness:
  "gen_large_prime example_tape 0 = Some (Inr (9223372036854803963, 11)) \<and>
   (2::int) ^ 63 \<le> 9223372036854803963 \<and> (9223372036854803963::int) < 2 ^ 64 \<and>
   is_prime 9223372036854803963 5 example_tape (Suc 0) = Some (Inr (True, 6)) \<and>
   is_prime ((9223372036854803963 - 1) div 2) 5 example_tape 6 = Some (Inr (True, 11))"
proof -
  have r: "(2::int) ^ 63 \<le> 9223372036854803963" "(9223372036854803963::int) < 2 ^ 64"
    using gen_large_prime_safe [OF gen_large_prime_example] by simp_all
  have q: "is_prime ((9223372036854803963 - 1) div 2) 5 example_tape 6 = Some (Inr (True, 11))"
    using is_prime_example_q by simp
  show ?thesis by (intro conjI gen_large_prime_example r is_prime_example_p q)
qed


section \<open>C10: the generator search\<close>

lemma find_generator_loop_step:
  assumes "2 \<le> g" "g < p"
  shows "find_generator_loop g ((p - 1) div 2) p =
           (if generator_test g p then Some (Inr (Some g))
            else find_generator_loop (g + 1) ((p - 1) div 2) p)"
proof -
  have p: "3 \<le> p" using assms by linarith
  have q: "0 < (p - 1) div 2" using p by simp
  have a: "quick_pow g 2 p = Some (Inr (g ^ 2 mod p))"
    using quick_pow_pos [of 2 p g] p by simp
  have b: "quick_pow g ((p - 1) div 2) p = Some (Inr (g ^ nat ((p - 1) div 2) mod p))"
    using q p by (intro quick_pow_pos) simp_all
  show ?thesis
    using assms by (subst find_generator_loop.simps) (simp add: a b generator_test_def)
qed

lemma find_generator_loop_none:
  "2 \<le> g \<Longrightarrow> (\<forall>h. g \<le> h \<and> h < p \<longrightarrow> \<not> generator_test h p) \<Longrightarrow>
     find_generator_loop g ((p - 1) div 2) p = Some (Inr None)"
proof (induction "nat (p - g)" arbitrary: g)
  case 0
  then have "\<not> g < p" by simp
  then show ?case by (subst find_generator_loop.simps) simp
next
  case (Suc n)
  then have gp: "g < p" by linarith
  have "find_generator_loop (g + 1) ((p - 1) div 2) p = Some (Inr None)"
    using Suc.hyps(2) Suc.prems by (intro Suc.hyps(1)) auto
  moreover have "\<not> generator_test g p" using Suc.prems gp by simp
  ultimately show ?case using find_generator_loop_step [OF Suc.prems(1) gp] by simp
qed

lemma find_generator_loop_least:
  "2 \<le> g \<Longrightarrow> g \<le> h \<Longrightarrow> h < p \<Longrightarrow> generator_test h p \<Longrightarrow>
     \<exists>g'. find_generator_loop g ((p - 1) div 2) p = Some (Inr (Some g')) \<and> g \<le> g' \<and> g' \<le> h \<and>
          generator_test g' p \<and> (\<forall>h'. g \<le> h' \<and> h' < g' \<longrightarrow> \<not> generator_test h' p)"
proof (induction "nat (h - g)" arbitrary: g)
  case 0
  then have "g = h" by simp
  with 0 show ?case using find_generator_loop_step [of h p] by auto
next
  case (Suc n)
  then have gp: "g < p" and gh: "g < h" by linarith+
  show ?case
  proof (cases "generator_test g p")
    case True
    then have "find_generator_loop g ((p - 1) div 2) p = Some (Inr (Some g))"
      using find_generator_loop_step [OF Suc.prems(1) gp] by simp
    with True gh show ?thesis by auto
  next
    case False
    have "\<exists>g'. find_generator_loop (g + 1) ((p - 1) div 2) p = Some (Inr (Some g')) \<and> g + 1 \<le> g' \<and> g' \<le> h \<and>
          generator_test g' p \<and> (\<forall>h'. g + 1 \<le> h' \<and> h' < g' \<longrightarrow> \<not> generator_test h' p)"
      using Suc.hyps(2) Suc.prems gh by (intro Suc.hyps(1)) auto
    then obtain g' where g': "find_generator_loop (g + 1) ((p - 1) div 2) p = Some (Inr (Some g'))"
      "g + 1 \<le> g'" "g' \<le> h" "generator_test g' p"
      "\<forall>h'. g + 1 \<le> h' \<and> h' < g' \<longrightarrow> \<not> generator_test h' p" by blast
    have "find_generator_loop g ((p - 1) div 2) p = Some (Inr (Some g'))"
      using find_generator_loop_step [OF Suc.prems(1) gp] False g'(1) by simp
    moreover have "\<forall>h'. g \<le> h' \<and> h' < g' \<longrightarrow> \<not> generator_test h' p"
    proof (intro allI impI)
      fix h' assume "g \<le> h' \<and> h' < g'"
      then have "h' = g \<or> (g + 1 \<le> h' \<and> h' < g')" by linarith
      then show "\<not> generator_test h' p" using False g'(5) by blast
    qed
    ultimately show ?thesis using g'(2,3,4) by auto
  qed
qed

lemma composite_has_divisor:
  assumes "1 < p" "\<not> prime_int p"
  shows "\<exists>d. 2 \<le> d \<and> d < p \<and> d dvd p"
proof -
  from assms have "\<not> list_all (\<lambda>d. \<not> d dvd p) [2..p - 1]" by (simp add: prime_int_def)
  then obtain d where "d \<in> set [2..p - 1]" "d dvd p" by (auto simp: list_all_iff)
  then show ?thesis by auto
qed

lemma divisor_power_mod_ne_1:
  fixes d :: int
  assumes "2 \<le> d" "d dvd p" "0 < j"
  shows "d ^ j mod p \<noteq> 1"
proof
  assume one: "d ^ j mod p = 1"
  have "d dvd d ^ j" using assms(3) by (simp add: dvd_power)
  then have "d dvd d ^ j mod p" using assms(2) by (simp add: dvd_mod)
  with one have "d dvd 1" by simp
  with assms(1) show False by simp
qed

lemma generator_exists:
  assumes p7: "7 \<le> p" and op: "odd p" and oq: "odd ((p - 1) div 2)"
  shows "\<exists>h. 2 \<le> h \<and> h < p \<and> generator_test h p"
proof (cases "prime_int p")
  case False
  from composite_has_divisor [OF _ False] p7 obtain d where d: "2 \<le> d" "d < p" "d dvd p"
    by auto
  have "0 < nat ((p - 1) div 2)" using p7 by simp
  then have "generator_test d p"
    using d by (simp add: generator_test_def divisor_power_mod_ne_1)
  with d show ?thesis by blast
next
  case True
  let ?q = "nat ((p - 1) div 2)"
  let ?h = "p - 4"
  have p2: "\<not> p dvd 2" using p7 by (auto dest: zdvd_imp_le)
  have two_q: "2 * ?q = nat (p - 1)" using op p7 by (auto elim!: oddE)
  have fermat2: "(2::int) ^ nat (p - 1) mod p = 1" using True p2 by (rule fermat_little)
  have "?h ^ ?q mod p = (- 4) ^ ?q mod p"
  proof -
    have "?h mod p = (- 4) mod p" by (metis diff_conv_add_uminus add.commute mod_add_self1)
    then show ?thesis by (metis power_mod)
  qed
  also have "(- 4 :: int) ^ ?q = - (4 ^ ?q)"
    using oq p7 by (simp add: power_minus_odd even_nat_iff)
  also have "(4::int) ^ ?q = 2 ^ (2 * ?q)" by (simp add: power_mult)
  finally have "?h ^ ?q mod p = (- (2 ^ nat (p - 1))) mod p" using two_q by simp
  also have "\<dots> = (- (2 ^ nat (p - 1) mod p)) mod p" by (simp add: mod_minus_eq)
  also have "\<dots> = (- 1) mod p" using fermat2 by simp
  also have "\<dots> = p - 1" using p7 by (simp add: zmod_minus1)
  finally have hq: "?h ^ ?q mod p \<noteq> 1" using p7 by simp
  have "?h ^ 2 mod p = (- 4) ^ 2 mod p"
  proof -
    have "?h mod p = (- 4) mod p" by (metis diff_conv_add_uminus add.commute mod_add_self1)
    then show ?thesis by (metis power_mod)
  qed
  then have h2eq: "?h ^ 2 mod p = 16 mod p" by simp
  have h2: "?h ^ 2 mod p \<noteq> 1"
  proof
    assume "?h ^ 2 mod p = 1"
    with h2eq have "16 mod p = 1 mod p" using p7 by simp
    then have "p dvd 16 - 1" by (simp add: mod_eq_dvd_iff)
    then have "p dvd 3 * 5" by simp
    then have "p dvd 3 \<or> p dvd 5" using True by (rule prime_int_dvd_mult [rotated])
    then have "p \<le> 5" by (auto dest: zdvd_imp_le)
    with p7 show False by simp
  qed
  have "2 \<le> ?h" "?h < p" using p7 by simp_all
  with h2 hq show ?thesis unfolding generator_test_def by blast
qed


lemma find_generator_none:
  "(\<forall>g. 2 \<le> g \<and> g < p \<longrightarrow> \<not> generator_test g p) \<Longrightarrow> find_generator p = Some (Inr None)"
  unfolding find_generator_def by (rule find_generator_loop_none) simp_all

lemma find_generator_least:
  assumes "2 \<le> h" "h < p" "generator_test h p"
  shows "\<exists>g. find_generator p = Some (Inr (Some g)) \<and> 2 \<le> g \<and> g < p \<and> generator_test g p \<and>
           (\<forall>h. 2 \<le> h \<and> h < g \<longrightarrow> \<not> generator_test h p)"
proof -
  from find_generator_loop_least [OF _ assms] obtain g'
    where "find_generator_loop 2 ((p - 1) div 2) p = Some (Inr (Some g'))" "2 \<le> g'" "g' \<le> h"
      "generator_test g' p" "\<forall>h'. 2 \<le> h' \<and> h' < g' \<longrightarrow> \<not> generator_test h' p"
    by auto
  with assms(2) show ?thesis unfolding find_generator_def by (intro exI [of _ g']) auto
qed

lemma find_generator_returns: "\<exists>r. find_generator p = Some (Inr r)"
proof (cases "\<exists>h. 2 \<le> h \<and> h < p \<and> generator_test h p")
  case True
  then obtain h where "2 \<le> h" "h < p" "generator_test h p" by blast
  from find_generator_least [OF this] show ?thesis by blast
next
  case False
  then have "find_generator p = Some (Inr None)" by (intro find_generator_none) blast
  then show ?thesis by blast
qed

lemma is_prime_True_odd:
  assumes "is_prime n k rnd i = Some (Inr (True, i'))" "3 < n"
  shows "odd n"
proof (rule ccontr)
  assume "\<not> odd n"
  then have "n mod 2 = 0" by presburger
  with assms(2) have "is_prime n k rnd i = Some (Inr (False, i))" by (simp add: is_prime_def)
  with assms(1) show False by simp
qed

lemma safe_prime_shape:
  assumes "safe_prime p"
  shows "p = 5 \<or> (7 \<le> p \<and> odd p \<and> odd ((p - 1) div 2))"
proof -
  let ?q = "(p - 1) div 2"
  have pp: "prime_int p" and pq: "prime_int ?q" using assms by (simp_all add: safe_prime_def)
  have q2: "2 \<le> ?q" using prime_int_gt_1 [OF pq] by simp
  then have p5: "5 \<le> p" by linarith
  have op: "odd p" using even_not_prime_int [of p] pp p5 by auto
  show ?thesis
  proof (cases "?q = 2")
    case True
    then have "p = 5 \<or> p = 6" by linarith
    with op show ?thesis by auto
  next
    case False
    with q2 have q3: "2 < ?q" by simp
    then have "odd ?q" using even_not_prime_int [of ?q] pq by auto
    moreover have "7 \<le> p" using q3 by linarith
    ultimately show ?thesis using op by simp
  qed
qed

lemma generator_exists_safe_prime:
  assumes "safe_prime p"
  shows "\<exists>h. 2 \<le> h \<and> h < p \<and> generator_test h p"
proof -
  from safe_prime_shape [OF assms] show ?thesis
  proof
    assume "p = 5"
    then have "2 \<le> (2::int) \<and> 2 < p \<and> generator_test 2 p" by (simp add: generator_test_def)
    then show ?thesis by blast
  next
    assume "7 \<le> p \<and> odd p \<and> odd ((p - 1) div 2)"
    then show ?thesis by (intro generator_exists) simp_all
  qed
qed

lemma generator_exists_gen_large_prime:
  assumes "gen_large_prime rnd i = Some (Inr (p, i'))"
  shows "\<exists>h. 2 \<le> h \<and> h < p \<and> generator_test h p"
proof -
  from gen_large_prime_returns [OF assms] obtain i1 i2 where p: "2 ^ 63 \<le> p"
    and a: "is_prime p 5 rnd i1 = Some (Inr (True, i2))"
    and b: "is_prime ((p - 1) div 2) 5 rnd i2 = Some (Inr (True, i'))" by auto
  have p7: "7 \<le> p" using p by simp
  have op: "odd p" using a p7 by (intro is_prime_True_odd [OF a]) simp
  have "3 < (p - 1) div 2" using p by simp
  then have oq: "odd ((p - 1) div 2)" by (rule is_prime_True_odd [OF b])
  from p7 op oq show ?thesis by (rule generator_exists)
qed

lemma gen_key_from_None:
  "gen_key_from p None rnd i = Some (Inl (if p < 4 then ValueError else TypeError))"
proof (cases "p < 4")
  case True
  then show ?thesis by (simp add: gen_key_from_def draw_def randint_def)
next
  case False
  have "0 \<le> int (rnd i) mod (p - 2 - 2 + 1)" using False by simp
  then have "2 + int (rnd i) mod (p - 2 - 2 + 1) \<noteq> 0" by linarith
  then show ?thesis using False
    by (simp add: gen_key_from_def draw_def randint_def quick_pow_base_def)
qed

lemma gen_key_returns:
  assumes "gen_key rnd i = Some (Inr ((p, g, y, x), i'))"
  shows "find_generator p = Some (Inr g)"
proof -
  from assms obtain p0 i1 g0 where "find_generator p0 = Some (Inr g0)"
    and "gen_key_from p0 g0 rnd i1 = Some (Inr ((p, g, y, x), i'))"
    by (auto simp: gen_key_def rbind_eq_Some_Inr)
  moreover from this(2) have "p = p0 \<and> g = g0"
    by (auto simp: gen_key_from_def rbind_eq_Some_Inr)
  ultimately show ?thesis by simp
qed

text \<open>
  Claim C10. If no \<open>g\<close> of \<open>[2, p)\<close> passes both tests, \<^verbatim>\<open>find_generator(p)\<close> returns \<^verbatim>\<open>None\<close>,
  and it never raises. \<^verbatim>\<open>gen_key\<close> does not check the result: it returns the \<open>g\<close> that
  \<^verbatim>\<open>find_generator\<close> returned, and a \<^verbatim>\<open>None\<close> would go on into \<^verbatim>\<open>random.randint\<close> and
  \<^verbatim>\<open>quick_pow\<close>, where the first multiplication raises \<^verbatim>\<open>TypeError\<close>. For every \<open>p\<close> that
  \<^verbatim>\<open>gen_large_prime\<close> returns, and for every safe prime \<open>p\<close>, some \<open>g\<close> of \<open>[2, p)\<close> passes,
  so \<^verbatim>\<open>find_generator\<close> returns the smallest such \<open>g\<close>.
\<close>

theorem find_generator_sentinel:
  "((\<forall>g. 2 \<le> g \<and> g < p \<longrightarrow> \<not> generator_test g p) \<longrightarrow> find_generator p = Some (Inr None)) \<and>
   (\<exists>r. find_generator p = Some (Inr r)) \<and>
   gen_key_from p None rnd i = Some (Inl (if p < 4 then ValueError else TypeError)) \<and>
   (gen_key rnd i = Some (Inr ((p, g, y, x), i')) \<longrightarrow> find_generator p = Some (Inr g)) \<and>
   (gen_large_prime rnd i = Some (Inr (p, i')) \<or> safe_prime p \<longrightarrow>
      (\<exists>g. find_generator p = Some (Inr (Some g)) \<and> 2 \<le> g \<and> g < p \<and> generator_test g p \<and>
           (\<forall>h. 2 \<le> h \<and> h < g \<longrightarrow> \<not> generator_test h p)))"
proof (intro conjI impI)
  assume "\<forall>g. 2 \<le> g \<and> g < p \<longrightarrow> \<not> generator_test g p"
  then show "find_generator p = Some (Inr None)" by (rule find_generator_none)
next
  show "\<exists>r. find_generator p = Some (Inr r)" by (rule find_generator_returns)
next
  show "gen_key_from p None rnd i = Some (Inl (if p < 4 then ValueError else TypeError))"
    by (rule gen_key_from_None)
next
  assume "gen_key rnd i = Some (Inr ((p, g, y, x), i'))"
  then show "find_generator p = Some (Inr g)" by (rule gen_key_returns)
next
  assume "gen_large_prime rnd i = Some (Inr (p, i')) \<or> safe_prime p"
  then have "\<exists>h. 2 \<le> h \<and> h < p \<and> generator_test h p"
    using generator_exists_gen_large_prime generator_exists_safe_prime by blast
  then obtain h where "2 \<le> h" "h < p" "generator_test h p" by blast
  then show "\<exists>g. find_generator p = Some (Inr (Some g)) \<and> 2 \<le> g \<and> g < p \<and> generator_test g p \<and>
           (\<forall>h. 2 \<le> h \<and> h < g \<longrightarrow> \<not> generator_test h p)"
    by (rule find_generator_least)
qed


lemma quick_pow_2_2_example: "quick_pow 2 2 9223372036854803963 = Some (Inr 4)"
  unfolding quick_pow_def by (simp add: quick_pow_loop.simps)

lemma quick_pow_2_q_example:
  "quick_pow 2 4611686018427401981 9223372036854803963 = Some (Inr 9223372036854803962)"
  unfolding quick_pow_def by (simp add: quick_pow_loop.simps)

lemma find_generator_example: "find_generator 9223372036854803963 = Some (Inr (Some 2))"
  unfolding find_generator_def
  by (subst find_generator_loop.simps) (simp add: quick_pow_2_2_example quick_pow_2_q_example)

lemma gen_key_from_example:
  "gen_key_from 9223372036854803963 (Some 2) example_tape 11
     = Some (Inr ((9223372036854803963, Some 2, 4, 2), 12))"
  by (simp add: gen_key_from_def draw_def randint_def example_tape_def quick_pow_base_def
      quick_pow_2_2_example)

lemma gen_key_example:
  "gen_key example_tape 0 = Some (Inr ((9223372036854803963, Some 2, 4, 2), 12))"
  by (subst gen_key_def, subst gen_large_prime_example)
     (simp add: find_generator_example gen_key_from_example)

lemma no_generator_3: "\<forall>g. 2 \<le> g \<and> g < 3 \<longrightarrow> \<not> generator_test g 3"
proof (intro allI impI)
  fix g :: int
  assume "2 \<le> g \<and> g < 3"
  then have "g = 2" by simp
  then show "\<not> generator_test g 3" by (simp add: generator_test_def)
qed

theorem find_generator_sentinel_witness:
  "find_generator 3 = Some (Inr None) \<and>
   gen_key_from 3 None example_tape 0 = Some (Inl ValueError) \<and>
   gen_key_from 23 None example_tape 0 = Some (Inl TypeError) \<and>
   gen_key example_tape 0 = Some (Inr ((9223372036854803963, Some 2, 4, 2), 12)) \<and>
   gen_large_prime example_tape 0 = Some (Inr (9223372036854803963, 11)) \<and>
   find_generator 9223372036854803963 = Some (Inr (Some 2)) \<and>
   generator_test 2 9223372036854803963 \<and>
   safe_prime 23 \<and>
   find_generator 23 \<noteq> Some (Inr None)"
proof -
  have a: "find_generator 3 = Some (Inr None)"
    using find_generator_sentinel [of 3] no_generator_3 by blast
  have b: "gen_key_from 3 None example_tape 0 = Some (Inl ValueError)"
    using find_generator_sentinel [of 3 example_tape 0] by simp
  have c: "gen_key_from 23 None example_tape 0 = Some (Inl TypeError)"
    using find_generator_sentinel [of 23 example_tape 0] by simp
  have d: "find_generator 9223372036854803963 = Some (Inr (Some 2))"
    using find_generator_sentinel [of 9223372036854803963 example_tape 0 "Some 2" 4 2 12]
      gen_key_example by blast
  have "\<exists>g. find_generator 9223372036854803963 = Some (Inr (Some g)) \<and> 2 \<le> g
           \<and> g < 9223372036854803963 \<and> generator_test g 9223372036854803963
           \<and> (\<forall>h. 2 \<le> h \<and> h < g \<longrightarrow> \<not> generator_test h 9223372036854803963)"
    using find_generator_sentinel [of 9223372036854803963 example_tape 0 _ _ _ 11]
      gen_large_prime_example by blast
  with d have e: "generator_test 2 9223372036854803963" by auto
  have "\<exists>g. find_generator 23 = Some (Inr (Some g)) \<and> 2 \<le> g \<and> g < 23 \<and> generator_test g 23
           \<and> (\<forall>h. 2 \<le> h \<and> h < g \<longrightarrow> \<not> generator_test h 23)"
    using find_generator_sentinel [of 23] safe_prime_23 by blast
  then have f: "find_generator 23 \<noteq> Some (Inr None)" by auto
  show ?thesis by (intro conjI a b c gen_key_example gen_large_prime_example d e safe_prime_23 f)
qed


end
